theory Spec2Isabelle
  imports Main "HOL-Library.Sublist"
begin

section \<open>The concrete syntax tree\<close>

text \<open>
  Modelled from the spec: the token types of \<^verbatim>\<open>cst.ts\<close>, which is not among the
  sources. A collection item has \<^verbatim>\<open>start\<close>, an optional \<^verbatim>\<open>key\<close>, \<^verbatim>\<open>sep\<close> and an
  optional \<^verbatim>\<open>value\<close>; a document span has \<^verbatim>\<open>offset\<close>, \<^verbatim>\<open>start\<close>, an optional
  \<^verbatim>\<open>value\<close> and an optional \<^verbatim>\<open>end\<close>. The visitor only distinguishes tokens that
  have an \<^verbatim>\<open>items\<close> member (block maps, block sequences, flow collections) from those
  that have none, so a token is one of the two, each with its \<^verbatim>\<open>type\<close> tag. A member
  that is \<^verbatim>\<open>undefined\<close> or \<^verbatim>\<open>null\<close> is \<open>None\<close>: the code only ever tests such
  members for truthiness.
\<close>

datatype source_token =
  SourceToken (stype: string) (soffset: int) (sindent: int) (ssource: string)

datatype token =
    Tok (ttype: string) (tsource: string)
  | Coll (ttype: string) (items: "item list")
and item =
    Item (start: "source_token list") (key: "token option")
         (sep: "source_token list") (val: "token option")

datatype document =
  Document (doffset: int) (dstart: "source_token list") (dvalue: "token option")
           (dend: "source_token list option")

text \<open>A root handed to the visitor's functions is a document or a bare collection item.\<close>

datatype node = Doc document | It item

datatype field = Key | Value

type_synonym path = "(field \<times> int) list"

datatype error = TypeError | Error string

text \<open>\<^verbatim>\<open>xs[i]\<close> of JavaScript: \<^verbatim>\<open>undefined\<close> outside the list.\<close>

definition js_nth :: "'a list \<Rightarrow> int \<Rightarrow> 'a option" where
  "js_nth xs i = (if 0 \<le> i \<and> i < int (length xs) then Some (xs ! nat i) else None)"

text \<open>\<^verbatim>\<open>item[field]\<close> on an item, and on either kind of root (a document has a
  \<^verbatim>\<open>value\<close> member and no \<^verbatim>\<open>key\<close>).\<close>

fun item_field :: "item \<Rightarrow> field \<Rightarrow> token option" where
  "item_field it Key = key it"
| "item_field it Value = val it"

fun node_field :: "node \<Rightarrow> field \<Rightarrow> token option" where
  "node_field (It it) f = item_field it f"
| "node_field (Doc d) Key = None"
| "node_field (Doc d) Value = dvalue d"

text \<open>\<^verbatim>\<open>item?.[field]\<close>\<close>

definition opt_field :: "node option \<Rightarrow> field \<Rightarrow> token option" where
  "opt_field item f = (case item of None \<Rightarrow> None | Some n \<Rightarrow> node_field n f)"

subsection \<open>\<^verbatim>\<open>visit.itemAtPath\<close> and \<^verbatim>\<open>visit.parentCollection\<close>\<close>

text \<open>The loop of \<^verbatim>\<open>itemAtPath\<close>, with the current \<^verbatim>\<open>item\<close> as its state; the
  item is \<^verbatim>\<open>undefined\<close> after a step whose index is out of range.\<close>

fun itemAtPath_loop :: "node option \<Rightarrow> path \<Rightarrow> node option" where
  "itemAtPath_loop item [] = item"
| "itemAtPath_loop item ((field, index) # rest) =
     (case opt_field item field of
        Some (Coll t xs) \<Rightarrow> itemAtPath_loop (map_option It (js_nth xs index)) rest
      | _ \<Rightarrow> None)"

definition itemAtPath :: "node \<Rightarrow> path \<Rightarrow> node option" where
  "itemAtPath cst path = itemAtPath_loop (Some cst) path"

text \<open>\<^verbatim>\<open>path[path.length - 1][0]\<close> raises a TypeError on the empty path, after
  \<^verbatim>\<open>itemAtPath\<close> has run on \<^verbatim>\<open>path.slice(0, -1)\<close>.\<close>

definition parentCollection :: "node \<Rightarrow> path \<Rightarrow> error + token" where
  "parentCollection cst path =
     (let parent = itemAtPath cst (butlast path) in
      if path = [] then Inl TypeError
      else
        (case opt_field parent (fst (last path)) of
           Some (Coll t xs) \<Rightarrow> Inr (Coll t xs)
         | _ \<Rightarrow> Inl (Error ''Parent collection not found'')))"

subsection \<open>\<^verbatim>\<open>visit\<close>\<close>

datatype symbol = BREAK | SKIP | REMOVE | OtherSymbol string

text \<open>
  What a visitor returns. A visitor is a JavaScript closure: it may keep state of its own,
  which the model threads through every call as \<open>'s\<close>. It is called with
  \<^verbatim>\<open>token.items[i]\<close>, which is \<^verbatim>\<open>undefined\<close> when a numeric return has moved the
  cursor out of the list. The visitor acts on the tree through its return value only.
  Numbers are integers.
\<close>

datatype 's ctrl =
    Void
  | Sym symbol
  | Num int
  | Fun "'s \<Rightarrow> item option \<Rightarrow> path \<Rightarrow> 's ctrl \<times> 's"

type_synonym 's visitor = "'s \<Rightarrow> item option \<Rightarrow> path \<Rightarrow> 's ctrl \<times> 's"

fun is_symbol :: "'s ctrl \<Rightarrow> bool" where
  "is_symbol (Sym y) = True"
| "is_symbol c = False"

fun set_field :: "item \<Rightarrow> field \<Rightarrow> token \<Rightarrow> item" where
  "set_field (Item st k sp v) Key t = Item st (Some t) sp v"
| "set_field (Item st k sp v) Value t = Item st k sp (Some t)"

text \<open>\<^verbatim>\<open>items.splice(i, 1)\<close>: a negative start counts from the end of the list.\<close>

definition js_splice1 :: "'a list \<Rightarrow> int \<Rightarrow> 'a list" where
  "js_splice1 xs i =
     (let n = int (length xs);
          st = nat (if i < 0 then max (n + i) 0 else min i n)
      in take st xs @ drop (Suc st) xs)"

text \<open>The child object at index \<open>i\<close> after its own visit has spliced lists below it.\<close>

definition put_back :: "item list \<Rightarrow> int \<Rightarrow> item option \<Rightarrow> item list" where
  "put_back xs i c =
     (case c of
        Some x \<Rightarrow> if 0 \<le> i \<and> i < int (length xs) then xs[nat i := x] else xs
      | None \<Rightarrow> xs)"

text \<open>\<^verbatim>\<open>token && 'items' in token\<close>: the items of a collection token.\<close>

fun coll_items :: "token option \<Rightarrow> (string \<times> item list) option" where
  "coll_items (Some (Coll t xs)) = Some (t, xs)"
| "coll_items other = None"

text \<open>
  What the body of the loop over \<^verbatim>\<open>token.items\<close> does with the child's result
  \<open>ci\<close>, up to and including the \<^verbatim>\<open>++i\<close> of the loop header: the list and the cursor
  of the next round, or \<open>None\<close> for \<^verbatim>\<open>return BREAK\<close>.
\<close>

fun next_cursor :: "item list \<Rightarrow> int \<Rightarrow> 's ctrl \<Rightarrow> (item list \<times> int) option" where
  "next_cursor xs i (Num k) = Some (xs, (k - 1) + 1)"
| "next_cursor xs i (Sym BREAK) = None"
| "next_cursor xs i (Sym REMOVE) = Some (js_splice1 xs i, (i - 1) + 1)"
| "next_cursor xs i ci = Some (xs, i + 1)"

text \<open>\<^verbatim>\<open>if (typeof ctrl === 'function' && field === 'key') ctrl = ctrl(item, path)\<close>\<close>

fun after_key :: "'s ctrl \<Rightarrow> field \<Rightarrow> 's \<Rightarrow> item \<Rightarrow> path \<Rightarrow> 's ctrl \<times> 's" where
  "after_key (Fun g) Key s it path = g s (Some it) path"
| "after_key ctrl field s it path = (ctrl, s)"

text \<open>\<^verbatim>\<open>return typeof ctrl === 'function' ? ctrl(item, path) : ctrl\<close>\<close>

fun at_exit :: "'s ctrl \<Rightarrow> 's \<Rightarrow> item \<Rightarrow> path \<Rightarrow> 's ctrl \<times> 's" where
  "at_exit (Fun g) s it path = g s (Some it) path"
| "at_exit ctrl s it path = (ctrl, s)"

text \<open>
  \<^verbatim>\<open>_visit\<close>. A numeric return can send the cursor back for ever, so the recursion runs
  on fuel: \<open>None\<close> is "out of fuel", \<open>Some (Inl e)\<close> a raised error, \<open>Some (Inr r)\<close> a
  return. \<open>visit_fields\<close> is the loop over \<^verbatim>\<open>['key', 'value']\<close>, \<open>visit_items\<close> the loop
  over \<^verbatim>\<open>token.items\<close> with its cursor \<open>i\<close>; its boolean result says that it left
  through \<^verbatim>\<open>return BREAK\<close>. The lists that the code splices in place are returned.
\<close>

function (sequential) visit_rec ::
    "nat \<Rightarrow> path \<Rightarrow> item option \<Rightarrow> 's visitor \<Rightarrow> 's \<Rightarrow> (error + 's ctrl \<times> 's \<times> item option) option"
and visit_fields ::
    "nat \<Rightarrow> path \<Rightarrow> field list \<Rightarrow> item \<Rightarrow> 's ctrl \<Rightarrow> 's visitor \<Rightarrow> 's
       \<Rightarrow> (error + 's ctrl \<times> 's \<times> item option) option"
and visit_items ::
    "nat \<Rightarrow> path \<Rightarrow> field \<Rightarrow> item list \<Rightarrow> int \<Rightarrow> 's visitor \<Rightarrow> 's
       \<Rightarrow> (error + bool \<times> 's \<times> item list) option"
where
  "visit_rec 0 path item visitor s = None"
| "visit_rec (Suc n) path item visitor s =
     (case visitor s item path of
        (ctrl, s1) \<Rightarrow>
          if is_symbol ctrl then Some (Inr (ctrl, s1, item))
          else (case item of
                  None \<Rightarrow> Some (Inl TypeError)
                | Some it \<Rightarrow> visit_fields n path [Key, Value] it ctrl visitor s1))"
| "visit_fields n path [] it ctrl visitor s =
     (case at_exit ctrl s it path of (c, s1) \<Rightarrow> Some (Inr (c, s1, Some it)))"
| "visit_fields n path (field # fields) it ctrl visitor s =
     (case coll_items (item_field it field) of
        None \<Rightarrow> visit_fields n path fields it ctrl visitor s
      | Some (t, xs) \<Rightarrow>
          (case visit_items n path field xs 0 visitor s of
             None \<Rightarrow> None
           | Some (Inl e) \<Rightarrow> Some (Inl e)
           | Some (Inr (brk, s1, xs1)) \<Rightarrow>
               (let it1 = set_field it field (Coll t xs1) in
                if brk then Some (Inr (Sym BREAK, s1, Some it1))
                else (case after_key ctrl field s1 it1 path of
                        (c, s2) \<Rightarrow> visit_fields n path fields it1 c visitor s2))))"
| "visit_items 0 path field xs i visitor s = None"
| "visit_items (Suc n) path field xs i visitor s =
     (if i < int (length xs) then
        (case visit_rec n (path @ [(field, i)]) (js_nth xs i) visitor s of
           None \<Rightarrow> None
         | Some (Inl e) \<Rightarrow> Some (Inl e)
         | Some (Inr (ci, s1, c)) \<Rightarrow>
             (case next_cursor (put_back xs i c) i ci of
                None \<Rightarrow> Some (Inr (True, s1, put_back xs i c))
              | Some (xs1, j) \<Rightarrow> visit_items n path field xs1 j visitor s1))
      else Some (Inr (False, s, xs)))"
  by pat_completeness auto
termination
  by (relation "inv_image (less_than <*lex*> less_than <*lex*> less_than)
       (\<lambda>x. case x of
          Inl (n, _) \<Rightarrow> (n, 0::nat, 0::nat)
        | Inr (Inl (n, _, fs, _)) \<Rightarrow> (n, 2, length fs)
        | Inr (Inr (n, _)) \<Rightarrow> (n, 1, 0))") auto

text \<open>
  \<^verbatim>\<open>visit\<close>: a document is replaced by the item \<^verbatim>\<open>{ start, value }\<close>, whose value
  is the document's own token object, so what the walk splices shows in the document. The
  function returns nothing; the model returns the visitor's final state and the root.
\<close>

definition root_item :: "node \<Rightarrow> item" where
  "root_item cst = (case cst of Doc d \<Rightarrow> Item (dstart d) None [] (dvalue d) | It it \<Rightarrow> it)"

definition root_update :: "node \<Rightarrow> item option \<Rightarrow> node" where
  "root_update cst r =
     (case r of
        None \<Rightarrow> cst
      | Some it \<Rightarrow>
          (case cst of
             Doc d \<Rightarrow> Doc (Document (doffset d) (dstart d) (val it) (dend d))
           | It old \<Rightarrow> It it))"

definition visit :: "nat \<Rightarrow> node \<Rightarrow> 's visitor \<Rightarrow> 's \<Rightarrow> (error + 's \<times> node) option" where
  "visit fuel cst visitor s =
     (case visit_rec fuel [] (Some (root_item cst)) visitor s of
        None \<Rightarrow> None
      | Some (Inl e) \<Rightarrow> Some (Inl e)
      | Some (Inr (c, s1, r)) \<Rightarrow> Some (Inr (s1, root_update cst r)))"

subsection \<open>The items of a tree, in the order of the walk\<close>

text \<open>Every item of the tree below (and including) an item at path \<open>p\<close>, each with its
  path from the root: the item itself, then the items of its key, then those of its value,
  each list in index order and each child before its next sibling.\<close>

fun all_items :: "path \<Rightarrow> item \<Rightarrow> (item \<times> path) list"
and token_items :: "path \<Rightarrow> field \<Rightarrow> token option \<Rightarrow> (item \<times> path) list"
and list_items :: "path \<Rightarrow> field \<Rightarrow> int \<Rightarrow> item list \<Rightarrow> (item \<times> path) list"
where
  "all_items p (Item st k sp v) =
     (Item st k sp v, p) # token_items p Key k @ token_items p Value v"
| "token_items p f None = []"
| "token_items p f (Some (Tok t src)) = []"
| "token_items p f (Some (Coll t xs)) = list_items p f 0 xs"
| "list_items p f i [] = []"
| "list_items p f i (x # xs) = all_items (p @ [(f, i)]) x @ list_items p f (i + 1) xs"

text \<open>Fuel that is enough to walk an item when no cursor is ever sent backwards.\<close>

fun weight :: "item \<Rightarrow> nat"
and tweight :: "token option \<Rightarrow> nat"
and lweight :: "item list \<Rightarrow> nat"
where
  "weight (Item st k sp v) = 2 + tweight k + tweight v"
| "tweight None = 0"
| "tweight (Some (Tok t src)) = 0"
| "tweight (Some (Coll t xs)) = lweight xs"
| "lweight [] = 0"
| "lweight (x # xs) = weight x + lweight xs"

text \<open>The state of a visitor after it has been called on a list of items in turn, when
  \<open>g\<close> gives its next state.\<close>

definition run :: "('s \<Rightarrow> item \<Rightarrow> path \<Rightarrow> 's) \<Rightarrow> 's \<Rightarrow> (item \<times> path) list \<Rightarrow> 's" where
  "run g s l = foldl (\<lambda>s (x, q). g s x q) s l"

text \<open>A visitor that returns \<^verbatim>\<open>undefined\<close> when called in a state of \<open>S\<close> at a path of
  \<open>R\<close>, and stays in \<open>S\<close>.\<close>

definition quiet :: "'s set \<Rightarrow> path set \<Rightarrow> 's visitor \<Rightarrow> ('s \<Rightarrow> item \<Rightarrow> path \<Rightarrow> 's) \<Rightarrow> bool" where
  "quiet S R v g \<longleftrightarrow>
     (\<forall>s x q. s \<in> S \<longrightarrow> q \<in> R \<longrightarrow> v s (Some x) q = (Void, g s x q) \<and> g s x q \<in> S)"

text \<open>The paths at and below \<open>p\<close>.\<close>

definition below :: "path \<Rightarrow> path set" where
  "below p = {q. prefix p q}"

text \<open>Two small trees.\<close>

definition sample_items :: "item list" where
  "sample_items =
       [Item [] (Some (Coll ''flow-collection'' [Item [] None [] (Some (Tok ''scalar'' ''a''))]))
             [SourceToken ''map-value-ind'' 1 0 '':'']
             (Some (Coll ''block-seq'' [Item [SourceToken ''seq-item-ind'' 2 0 ''-''] None [] None])),
        Item [] (Some (Tok ''scalar'' ''b'')) [SourceToken ''map-value-ind'' 1 0 '':'']
             (Some (Tok ''scalar'' ''c''))]"

definition sample_map :: token where
  "sample_map = Coll ''block-map'' sample_items"

text \<open>A visitor that lists the paths of its calls and returns \<^verbatim>\<open>undefined\<close>.\<close>

definition log_paths :: "path list visitor" where
  "log_paths s x q = (Void, s @ [q])"

text \<open>A visitor that returns a continuation when it enters the item at \<open>P\<close>; the
  continuation returns \<^verbatim>\<open>BREAK\<close>. Its state is the log of the calls; \<open>True\<close> marks a
  call of the continuation.\<close>

definition break_after_key_at :: "path \<Rightarrow> (path \<times> bool) list visitor" where
  "break_after_key_at P s x q =
     (if q = P then (Fun (\<lambda>s1 x1 q1. (Sym BREAK, s1 @ [(q1, True)])), s @ [(q, False)])
      else (Void, s @ [(q, False)]))"

subsection \<open>The walk when items are removed\<close>

text \<open>The next state of a visitor: the state it leaves after a call, whatever it
  returns.\<close>

definition step :: "'s visitor \<Rightarrow> 's \<Rightarrow> item \<Rightarrow> path \<Rightarrow> 's" where
  "step v s y q = snd (v s (Some y) q)"

text \<open>Calls on a list of items in turn, all at the same path: the calls on items that are
  removed one after the other at the same index.\<close>

definition calls_at :: "path \<Rightarrow> item list \<Rightarrow> (item \<times> path) list" where
  "calls_at P ys = map (\<lambda>y. (y, P)) ys"

text \<open>The walk removes the first \<open>k\<close> items of \<open>ys\<close>, one after the other at \<open>P\<close> and
  from the state \<open>s\<close> on: the visitor answers \<^verbatim>\<open>REMOVE\<close> to each of them, called in the
  state the calls before have left, and \<^verbatim>\<open>undefined\<close> to the next item, if there is
  one.\<close>

definition removes :: "'s visitor \<Rightarrow> path \<Rightarrow> 's \<Rightarrow> item list \<Rightarrow> nat \<Rightarrow> bool" where
  "removes v P s ys k \<longleftrightarrow>
     k \<le> length ys
     \<and> (\<forall>j<k. fst (v (run (step v) s (calls_at P (take j ys))) (Some (ys ! j)) P) = Sym REMOVE)
     \<and> (k < length ys \<longrightarrow>
          fst (v (run (step v) s (calls_at P (take k ys))) (Some (ys ! k)) P) = Void)"

text \<open>
  How a tree changes in a walk that removes items from one list: \<open>before\<close> and \<open>after\<close>
  list the items of the tree before and after the walk. \<open>L1\<close> lists what comes ahead of
  the first removed item, \<open>Mb\<close> the items of the list from the first removed one on (and
  all that lies below them), \<open>Ma\<close> those among them that stay, at their new places, and
  \<open>L3\<close> what comes behind the list. Items of \<open>L1\<close> that lie above the list hold it, so
  they differ after the walk, and only their paths are compared.
\<close>

definition removal_trace ::
    "(item \<times> path) list \<Rightarrow> (item \<times> path) list \<Rightarrow> (item \<times> path) list \<Rightarrow> (item \<times> path) list
       \<Rightarrow> (item \<times> path) list \<Rightarrow> (item \<times> path) list \<Rightarrow> bool" where
  "removal_trace before after L1 Mb Ma L3 \<longleftrightarrow>
     before = L1 @ Mb @ L3 \<and> map snd after = map snd L1 @ map snd Ma @ map snd L3"

text \<open>The items that the walk of an item meets before and after those of its field \<open>f\<close>.\<close>

definition items_before_field :: "path \<Rightarrow> field \<Rightarrow> item \<Rightarrow> (item \<times> path) list" where
  "items_before_field p f it = (if f = Value then token_items p Key (key it) else [])"

definition items_after_field :: "path \<Rightarrow> field \<Rightarrow> item \<Rightarrow> (item \<times> path) list" where
  "items_after_field p f it = (if f = Key then token_items p Value (val it) else [])"

text \<open>Three visitors that ask for the removal of the item at \<open>P\<close>. The first returns
  \<^verbatim>\<open>REMOVE\<close> whenever it is called at \<open>P\<close>; the second when it is called at \<open>P\<close> on the
  item \<open>x\<close>; the third the first time it is called at \<open>P\<close>, which its state records. Each
  lists the paths of its calls.\<close>

definition remove_at_path :: "path \<Rightarrow> path list visitor" where
  "remove_at_path P s x q = (if q = P then (Sym REMOVE, s @ [q]) else (Void, s @ [q]))"

definition remove_item_at :: "item \<Rightarrow> path \<Rightarrow> path list visitor" where
  "remove_item_at y P s x q =
     (if x = Some y \<and> q = P then (Sym REMOVE, s @ [q]) else (Void, s @ [q]))"

definition remove_once :: "path \<Rightarrow> (bool \<times> path list) visitor" where
  "remove_once P s x q =
     (if \<not> fst s \<and> q = P then (Sym REMOVE, (True, snd s @ [q]))
      else (Void, (fst s, snd s @ [q])))"

text \<open>A list of three items: a pair with collections for key and value, and two plain
  pairs.\<close>

definition three_items :: "item list" where
  "three_items =
     sample_items
     @ [Item [] (Some (Tok ''scalar'' ''d'')) [SourceToken ''map-value-ind'' 1 0 '':'']
          (Some (Tok ''scalar'' ''e''))]"

definition three_doc :: node where
  "three_doc = Doc (Document 0 [] (Some (Coll ''block-map'' three_items)) None)"
section \<open>The composer\<close>

subsection \<open>Diagnostics\<close>

text \<open>Modelled from the spec: the error codes and the diagnostics of \<^verbatim>\<open>errors.ts\<close>,
  which is not among the sources. A \<^verbatim>\<open>YAMLParseError\<close> or a \<^verbatim>\<open>YAMLWarning\<close> is a
  position, a code and a message.\<close>

datatype error_code = BAD_DIRECTIVE | MISSING_CHAR | UNEXPECTED_TOKEN | OtherCode string

record diagnostic =
  pos :: "int \<times> int"
  ecode :: error_code
  message :: string

text \<open>\<^verbatim>\<open>ErrorSource\<close>: a number, a pair, a range, or an object with an offset and
  maybe a source string.\<close>

datatype error_source =
    AtOffset int
  | AtPair int int
  | AtRange int int int
  | AtToken int "string option"

fun getErrorPos :: "error_source \<Rightarrow> int \<times> int" where
  "getErrorPos (AtOffset n) = (n, n + 1)"
| "getErrorPos (AtPair a b) = (a, b)"
| "getErrorPos (AtRange a b c) = (a, b)"
| "getErrorPos (AtToken off None) = (off, off + 1)"
| "getErrorPos (AtToken off (Some src)) = (off, off + int (length src))"

text \<open>One call of a \<^verbatim>\<open>ComposeErrorHandler\<close>: source, code, message, warning.\<close>

type_synonym report = "error_source \<times> error_code \<times> string \<times> bool"

subsection \<open>\<^verbatim>\<open>parsePrelude\<close>\<close>

definition newline :: string where
  "newline = [CHR 0x0A]"

text \<open>The loop of \<^verbatim>\<open>parsePrelude\<close> over the lines that are left. After a line that
  starts with \<^verbatim>\<open>%\<close> the next line is skipped unless it starts with \<^verbatim>\<open>#\<close>.\<close>

fun parsePrelude_loop :: "string list \<Rightarrow> string \<Rightarrow> bool \<Rightarrow> bool \<Rightarrow> string \<times> bool" where
  "parsePrelude_loop [] comment atComment afterEmptyLine = (comment, afterEmptyLine)"
| "parsePrelude_loop (source # rest) comment atComment afterEmptyLine =
     (case source of
        [] \<Rightarrow> parsePrelude_loop rest comment False (if \<not> atComment then True else afterEmptyLine)
      | ch # text \<Rightarrow>
          if ch = CHR ''#'' then
            parsePrelude_loop rest
              (comment
               @ (if comment = [] then [] else if afterEmptyLine then newline @ newline else newline)
               @ (if text = [] then '' '' else text))
              True False
          else if ch = CHR ''%'' then
            (case rest of
               [] \<Rightarrow> parsePrelude_loop [] comment False afterEmptyLine
             | nxt # rest1 \<Rightarrow>
                 if take 1 nxt \<noteq> ''#''
                 then parsePrelude_loop rest1 comment False afterEmptyLine
                 else parsePrelude_loop (nxt # rest1) comment False afterEmptyLine)
          else parsePrelude_loop rest comment False (if \<not> atComment then True else afterEmptyLine))"

definition parsePrelude :: "string list \<Rightarrow> string \<times> bool" where
  "parsePrelude prelude = parsePrelude_loop prelude [] False False"

subsection \<open>Composed nodes and documents\<close>

text \<open>
  Modelled from the spec: composed nodes and documents, whose classes are not among the
  sources. Of a composed node the composer reads and writes \<^verbatim>\<open>commentBefore\<close>, reads
  \<^verbatim>\<open>range\<close>, and for a collection \<^verbatim>\<open>flow\<close> and \<^verbatim>\<open>items\<close>, whose members are
  pairs (with a key node) or nodes. A comment that is \<^verbatim>\<open>null\<close> or \<^verbatim>\<open>undefined\<close>
  is \<open>None\<close>.
\<close>

datatype anode =
    Scalar (ncommentBefore: "string option") (nrange: "int \<times> int \<times> int") (nsource: string)
  | Alias (ncommentBefore: "string option") (nrange: "int \<times> int \<times> int") (nsource: string)
  | Collection (ncommentBefore: "string option") (nrange: "int \<times> int \<times> int")
      (flow: bool) (nitems: "entry list")
and entry =
    Pair anode "anode option"
  | Elem anode

fun set_commentBefore :: "anode \<Rightarrow> string option \<Rightarrow> anode" where
  "set_commentBefore (Scalar cb r v) c = Scalar c r v"
| "set_commentBefore (Alias cb r v) c = Alias c r v"
| "set_commentBefore (Collection cb r f xs) c = Collection c r f xs"

text \<open>The directives of a document: what the composer sets, and the state kept by the
  \<^verbatim>\<open>Directives\<close> class, which is not among the sources.\<close>

record 'd doc_directives =
  docStart :: bool
  docEnd :: bool
  dstate :: 'd

text \<open>A \<^verbatim>\<open>Document.Parsed\<close>: contents, the two comments, the directives, the range
  \<open>(start, contentEnd, end)\<close>, errors, warnings and options.\<close>

record ('d, 'o) adoc =
  contents :: "anode option"
  comment :: "string option"
  commentBefore :: "string option"
  doc_directives :: "'d doc_directives"
  doc_range :: "int \<times> int \<times> int"
  doc_errors :: "diagnostic list"
  doc_warnings :: "diagnostic list"
  doc_options :: 'o

text \<open>A string that JavaScript takes for true: neither \<^verbatim>\<open>null\<close> nor empty.\<close>

fun truthy :: "string option \<Rightarrow> bool" where
  "truthy None = False"
| "truthy (Some s) = (s \<noteq> [])"

subsection \<open>The functions the composer calls that are not among the sources\<close>

text \<open>What \<^verbatim>\<open>resolveProps\<close> returns, as far as \<^verbatim>\<open>composeDoc\<close> reads it.\<close>

record props =
  found :: bool
  hasNewline :: bool
  pend :: int

text \<open>
  The collaborators are parameters. Each one that takes \<^verbatim>\<open>onError\<close> returns the
  calls it makes of it, in order.
  \<^item> \<open>new_directives\<close>: \<^verbatim>\<open>new Directives({ version })\<close>.
  \<^item> \<open>directives_add\<close>: \<^verbatim>\<open>directives.add(source, onError)\<close>, with the new state and
    the calls \<^verbatim>\<open>(offset, message, warning)\<close>.
  \<^item> \<open>at_document\<close>: what \<^verbatim>\<open>new Document(undefined, opts)\<close> does with
    \<^verbatim>\<open>opts._directives\<close>: the state of the document's directives, and that of the stream's
    afterwards.
  \<^item> \<open>option_version\<close>, \<open>option_strict\<close>: \<^verbatim>\<open>options.version\<close> and the
    \<^verbatim>\<open>options.strict\<close> of a document.
  \<^item> \<open>resolveProps\<close> (on \<^verbatim>\<open>start\<close>, \<^verbatim>\<open>next\<close> and \<^verbatim>\<open>offset\<close>),
    \<open>composeNode\<close>, \<open>composeEmptyNode\<close>, \<open>resolveEnd\<close> (returning the comment and
    the offset), and \<open>json_stringify\<close>.
\<close>

record ('d, 'o) ext =
  new_directives :: "string \<Rightarrow> 'd"
  directives_add :: "'d \<Rightarrow> string \<Rightarrow> 'd \<times> (int \<times> string \<times> bool) list"
  at_document :: "'d \<Rightarrow> 'd \<times> 'd"
  option_version :: "'o \<Rightarrow> string option"
  option_strict :: "'o \<Rightarrow> bool"
  resolveProps :: "source_token list \<Rightarrow> (token + source_token) option \<Rightarrow> int \<Rightarrow> props \<times> report list"
  composeNode :: "'d doc_directives \<Rightarrow> 'o \<Rightarrow> token \<Rightarrow> props \<Rightarrow> anode \<times> report list"
  composeEmptyNode ::
    "'d doc_directives \<Rightarrow> 'o \<Rightarrow> int \<Rightarrow> source_token list \<Rightarrow> props \<Rightarrow> anode \<times> report list"
  resolveEnd :: "source_token list option \<Rightarrow> int \<Rightarrow> bool \<Rightarrow> (string \<times> int) \<times> report list"
  json_stringify :: "string \<Rightarrow> string"

text \<open>Modelled from the spec: \<^verbatim>\<open>new Document(undefined, opts)\<close>, whose class is not
  among the sources, is a shell with no contents, no comments and no diagnostics, seeded with
  the directives and the options. Its range is set by each of its two callers before
  anything reads it, so the model takes it as an argument.\<close>

definition new_Document :: "'d \<Rightarrow> 'o \<Rightarrow> int \<times> int \<times> int \<Rightarrow> ('d, 'o) adoc" where
  "new_Document d opts r =
     \<lparr>contents = None, comment = None, commentBefore = None,
      doc_directives = \<lparr>docStart = False, docEnd = False, dstate = d\<rparr>,
      doc_range = r, doc_errors = [], doc_warnings = [], doc_options = opts\<rparr>"

subsection \<open>\<^verbatim>\<open>composeDoc\<close>\<close>

text \<open>\<^verbatim>\<open>value ?? end?.[0]\<close>\<close>

definition next_token :: "token option \<Rightarrow> source_token list option \<Rightarrow> (token + source_token) option" where
  "next_token v e =
     (case v of
        Some t \<Rightarrow> Some (Inl t)
      | None \<Rightarrow> (case e of None \<Rightarrow> None | Some [] \<Rightarrow> None | Some (t # ts) \<Rightarrow> Some (Inr t)))"

definition is_block_collection :: "token option \<Rightarrow> bool" where
  "is_block_collection v =
     (case v of None \<Rightarrow> False | Some t \<Rightarrow> ttype t = ''block-map'' \<or> ttype t = ''block-seq'')"

definition block_on_marker_line :: "props \<Rightarrow> report" where
  "block_on_marker_line p =
     (AtOffset (pend p), MISSING_CHAR,
      ''Block collection cannot start on same line with directives-end marker'', False)"

text \<open>\<^verbatim>\<open>composeDoc\<close> returns the document; the model also returns the calls of
  \<^verbatim>\<open>onError\<close>, in order, and the state of the stream's directives.\<close>

definition composeDoc ::
    "('d, 'o) ext \<Rightarrow> 'o \<Rightarrow> 'd \<Rightarrow> document \<Rightarrow> ('d, 'o) adoc \<times> report list \<times> 'd" where
  "composeDoc x opts dirs cst =
     (let offset = doffset cst; start = dstart cst; v = dvalue cst; e = dend cst;
          (dd, dirs1) = at_document x dirs;
          (prs, r1) = resolveProps x start (next_token v e) offset;
          ddir = \<lparr>docStart = found prs, docEnd = False, dstate = dd\<rparr>;
          r2 = (if found prs \<and> is_block_collection v \<and> \<not> hasNewline prs
                then [block_on_marker_line prs] else []);
          (node, r3) = (case v of
                          Some t \<Rightarrow> composeNode x ddir opts t prs
                        | None \<Rightarrow> composeEmptyNode x ddir opts (pend prs) start prs);
          contentEnd = snd (snd (nrange node));
          (re, r4) = resolveEnd x e contentEnd False
      in ((new_Document dd opts (offset, contentEnd, snd re))
            \<lparr>contents := Some node,
             comment := (if fst re \<noteq> [] then Some (fst re) else None),
             doc_directives := ddir\<rparr>,
          r1 @ r2 @ r3 @ r4, dirs1))"

subsection \<open>\<^verbatim>\<open>Composer\<close>\<close>

record ('d, 'o) composer =
  directives :: 'd
  doc :: "('d, 'o) adoc option"
  options :: 'o
  atDirectives :: bool
  prelude :: "string list"
  errors :: "diagnostic list"
  warnings :: "diagnostic list"

text \<open>The constructor: \<^verbatim>\<open>options.version || '1.2'\<close>.\<close>

definition Composer :: "('d, 'o) ext \<Rightarrow> 'o \<Rightarrow> ('d, 'o) composer" where
  "Composer x opts =
     \<lparr>directives = new_directives x
                    (if truthy (option_version x opts) then the (option_version x opts) else ''1.2''),
      doc = None, options = opts, atDirectives = False, prelude = [], errors = [],
      warnings = []\<rparr>"

definition onError :: "('d, 'o) composer \<Rightarrow> report \<Rightarrow> ('d, 'o) composer" where
  "onError c r =
     (case r of (src, code, msg, warning) \<Rightarrow>
        if warning
        then c\<lparr>warnings := warnings c @ [\<lparr>pos = getErrorPos src, ecode = code, message = msg\<rparr>]\<rparr>
        else c\<lparr>errors := errors c @ [\<lparr>pos = getErrorPos src, ecode = code, message = msg\<rparr>]\<rparr>)"

text \<open>Template strings \<^verbatim>\<open>`${a}\n${b}`\<close>.\<close>

definition join_lines :: "string \<Rightarrow> string \<Rightarrow> string" where
  "join_lines a b = a @ newline @ b"

text \<open>The comment goes before the first item of a block collection: before the key of a
  pair, or before the item itself.\<close>

fun comment_first_item :: "string \<Rightarrow> entry \<Rightarrow> entry" where
  "comment_first_item c (Pair k v) =
     Pair (set_commentBefore k
             (if truthy (ncommentBefore k) then Some (join_lines c (the (ncommentBefore k)))
              else Some c)) v"
| "comment_first_item c (Elem n) =
     Elem (set_commentBefore n
             (if truthy (ncommentBefore n) then Some (join_lines c (the (ncommentBefore n)))
              else Some c))"

fun comment_contents :: "string \<Rightarrow> anode \<Rightarrow> anode" where
  "comment_contents c (Collection cb r f (it # its)) =
     (if \<not> f then Collection cb r f (comment_first_item c it # its)
      else Collection (if truthy cb then Some (join_lines c (the cb)) else Some c) r f (it # its))"
| "comment_contents c dc =
     set_commentBefore dc
       (if truthy (ncommentBefore dc) then Some (join_lines c (the (ncommentBefore dc)))
        else Some c)"

text \<open>\<^verbatim>\<open>decorate\<close> changes the document it is given and the composer; both are
  returned.\<close>

definition decorate ::
    "('d, 'o) composer \<Rightarrow> ('d, 'o) adoc \<Rightarrow> bool \<Rightarrow> ('d, 'o) adoc \<times> ('d, 'o) composer" where
  "decorate c d afterDoc =
     (let (cmt, afterEmptyLine) = parsePrelude (prelude c);
          d1 = (if cmt \<noteq> [] then
                  (if afterDoc then
                     d\<lparr>comment := (if truthy (comment d) then Some (join_lines (the (comment d)) cmt)
                                    else Some cmt)\<rparr>
                   else if afterEmptyLine \<or> docStart (doc_directives d) \<or> contents d = None then
                     d\<lparr>commentBefore := Some cmt\<rparr>
                   else d\<lparr>contents := Some (comment_contents cmt (the (contents d)))\<rparr>)
                else d);
          d2 = (if afterDoc
                then d1\<lparr>doc_errors := doc_errors d1 @ errors c,
                        doc_warnings := doc_warnings d1 @ warnings c\<rparr>
                else d1\<lparr>doc_errors := errors c, doc_warnings := warnings c\<rparr>)
      in (d2, c\<lparr>prelude := [], errors := [], warnings := []\<rparr>))"

text \<open>The tokens of the stream, by their \<^verbatim>\<open>type\<close>, each with its offset and source;
  an error token has a message, a \<^verbatim>\<open>doc-end\<close> token the tokens after the marker, and
  a token of any other type may have no source.\<close>

datatype stream_token =
    Directive int string
  | DocumentToken document
  | ByteOrderMark int string
  | Space int string
  | Comment int string
  | Newline int string
  | ErrorToken int string string
  | DocEnd int string "source_token list option"
  | OtherToken string int "string option"

definition missing_start :: "document \<Rightarrow> report" where
  "missing_start t =
     (AtToken (doffset t) None, MISSING_CHAR,
      ''Missing directives-end/doc-start indicator line'', False)"

definition stray_doc_end :: "int \<Rightarrow> string \<Rightarrow> diagnostic" where
  "stray_doc_end off src =
     \<lparr>pos = getErrorPos (AtToken off (Some src)), ecode = UNEXPECTED_TOKEN,
      message = ''Unexpected doc-end without preceding document''\<rparr>"

text \<open>\<^verbatim>\<open>next\<close>: the documents it yields, in order, and the composer afterwards. The
  generator is run to its end.\<close>

fun composer_next ::
    "('d, 'o) ext \<Rightarrow> ('d, 'o) composer \<Rightarrow> stream_token \<Rightarrow> ('d, 'o) adoc list \<times> ('d, 'o) composer" where
  "composer_next x c (Directive off src) =
     (let (dirs1, calls) = directives_add x (directives c) src;
          c1 = foldl (\<lambda>c (o1, msg, w).
                        onError c (AtPair (fst (getErrorPos (AtToken off (Some src))) + o1)
                                          (snd (getErrorPos (AtToken off (Some src)))),
                                   BAD_DIRECTIVE, msg, w))
                 (c\<lparr>directives := dirs1\<rparr>) calls
      in ([], c1\<lparr>prelude := prelude c1 @ [src], atDirectives := True\<rparr>))"
| "composer_next x c (DocumentToken t) =
     (let (d, reports, dirs1) = composeDoc x (options c) (directives c) t;
          c1 = foldl onError (c\<lparr>directives := dirs1\<rparr>) reports;
          c2 = (if atDirectives c1 \<and> \<not> docStart (doc_directives d)
                then onError c1 (missing_start t) else c1);
          (d1, c3) = decorate c2 d False
      in ((case doc c3 of None \<Rightarrow> [] | Some old \<Rightarrow> [old]),
          c3\<lparr>doc := Some d1, atDirectives := False\<rparr>))"
| "composer_next x c (ByteOrderMark off src) = ([], c)"
| "composer_next x c (Space off src) = ([], c)"
| "composer_next x c (Comment off src) = ([], c\<lparr>prelude := prelude c @ [src]\<rparr>)"
| "composer_next x c (Newline off src) = ([], c\<lparr>prelude := prelude c @ [src]\<rparr>)"
| "composer_next x c (ErrorToken off src msg) =
     (let e = \<lparr>pos = getErrorPos (AtToken off (Some src)), ecode = UNEXPECTED_TOKEN,
               message = (if src \<noteq> [] then msg @ '': '' @ json_stringify x src else msg)\<rparr>
      in (case doc c of
            None \<Rightarrow> ([], c\<lparr>errors := errors c @ [e]\<rparr>)
          | Some d \<Rightarrow>
              if atDirectives c then ([], c\<lparr>errors := errors c @ [e]\<rparr>)
              else ([], c\<lparr>doc := Some (d\<lparr>doc_errors := doc_errors d @ [e]\<rparr>)\<rparr>)))"
| "composer_next x c (DocEnd off src e) =
     (case doc c of
        None \<Rightarrow> ([], c\<lparr>errors := errors c @ [stray_doc_end off src]\<rparr>)
      | Some d \<Rightarrow>
          (let d0 = d\<lparr>doc_directives := (doc_directives d)\<lparr>docEnd := True\<rparr>\<rparr>;
               (re, reports) = resolveEnd x e (off + int (length src))
                                 (option_strict x (doc_options d0));
               c1 = foldl onError c reports;
               (d1, c2) = decorate c1 d0 True;
               d2 = (if fst re \<noteq> []
                     then d1\<lparr>comment := (if truthy (comment d1)
                                          then Some (join_lines (the (comment d1)) (fst re))
                                          else Some (fst re))\<rparr>
                     else d1);
               d3 = d2\<lparr>doc_range := (fst (doc_range d2), fst (snd (doc_range d2)), snd re)\<rparr>
           in ([], c2\<lparr>doc := Some d3\<rparr>)))"
| "composer_next x c (OtherToken ty off src) =
     ([], c\<lparr>errors := errors c
               @ [\<lparr>pos = getErrorPos (AtToken off src), ecode = UNEXPECTED_TOKEN,
                   message = ''Unsupported token '' @ ty\<rparr>]\<rparr>)"

definition missing_end :: "int \<Rightarrow> report" where
  "missing_end endOffset =
     (AtOffset endOffset, MISSING_CHAR, ''Missing directives-end indicator line'', False)"

text \<open>\<^verbatim>\<open>end\<close>\<close>

definition composer_end ::
    "('d, 'o) ext \<Rightarrow> ('d, 'o) composer \<Rightarrow> bool \<Rightarrow> int \<Rightarrow> ('d, 'o) adoc list \<times> ('d, 'o) composer" where
  "composer_end x c forceDoc endOffset =
     (case doc c of
        Some d \<Rightarrow>
          (let (d1, c1) = decorate c d True in ([d1], c1\<lparr>doc := None\<rparr>))
      | None \<Rightarrow>
          if forceDoc then
            (let (dd, dirs1) = at_document x (directives c);
                 d = new_Document dd (options c) (0, endOffset, endOffset);
                 c1 = c\<lparr>directives := dirs1\<rparr>;
                 c2 = (if atDirectives c1 then onError c1 (missing_end endOffset) else c1);
                 (d1, c3) = decorate c2 d False
             in ([d1], c3))
          else ([], c))"

text \<open>\<^verbatim>\<open>compose\<close>: every token through \<^verbatim>\<open>next\<close>, then \<^verbatim>\<open>end\<close>.\<close>

fun compose_tokens ::
    "('d, 'o) ext \<Rightarrow> ('d, 'o) composer \<Rightarrow> stream_token list \<Rightarrow> ('d, 'o) adoc list \<times> ('d, 'o) composer" where
  "compose_tokens x c [] = ([], c)"
| "compose_tokens x c (t # ts) =
     (let (ys, c1) = composer_next x c t; (zs, c2) = compose_tokens x c1 ts in (ys @ zs, c2))"

definition compose ::
    "('d, 'o) ext \<Rightarrow> ('d, 'o) composer \<Rightarrow> stream_token list \<Rightarrow> bool \<Rightarrow> int
       \<Rightarrow> ('d, 'o) adoc list \<times> ('d, 'o) composer" where
  "compose x c tokens forceDoc endOffset =
     (let (ys, c1) = compose_tokens x c tokens; (zs, c2) = composer_end x c1 forceDoc endOffset
      in (ys @ zs, c2))"

subsection \<open>Diagnostics that the composer reports, and sample collaborators\<close>

text \<open>The errors (\<open>w = False\<close>) or the warnings (\<open>w = True\<close>) that a list of calls of
  \<^verbatim>\<open>onError\<close> adds.\<close>

definition reported :: "bool \<Rightarrow> report list \<Rightarrow> diagnostic list" where
  "reported w rs =
     map (\<lambda>(src, code, msg, warning). \<lparr>pos = getErrorPos src, ecode = code, message = msg\<rparr>)
       (filter (\<lambda>(src, code, msg, warning). warning = w) rs)"

text \<open>The calls of \<^verbatim>\<open>onError\<close> that a directive token makes for the calls of its
  parser.\<close>

definition directive_reports :: "int \<Rightarrow> string \<Rightarrow> (int \<times> string \<times> bool) list \<Rightarrow> report list" where
  "directive_reports off src calls =
     map (\<lambda>(o1, msg, w). (AtPair (off + o1) (off + int (length src)), BAD_DIRECTIVE, msg, w)) calls"

definition missing_start_error :: "document \<Rightarrow> diagnostic" where
  "missing_start_error t =
     \<lparr>pos = (doffset t, doffset t + 1), ecode = MISSING_CHAR,
      message = ''Missing directives-end/doc-start indicator line''\<rparr>"

text \<open>Collaborators for the examples: they keep no state and report nothing;
  \<open>resolveProps\<close> finds a marker when the leading tokens hold a \<^verbatim>\<open>doc-start\<close>.\<close>

definition sample_ext :: "(unit, unit) ext" where
  "sample_ext =
     \<lparr>new_directives = (\<lambda>v. ()),
      directives_add = (\<lambda>d src. ((), [])),
      at_document = (\<lambda>d. ((), ())),
      option_version = (\<lambda>opts. None),
      option_strict = (\<lambda>opts. True),
      resolveProps = (\<lambda>start nxt off.
         (\<lparr>found = list_ex (\<lambda>t. stype t = ''doc-start'') start,
           hasNewline = list_ex (\<lambda>t. stype t = ''newline'') start,
           pend = off + int (length (concat (map ssource start)))\<rparr>, [])),
      composeNode = (\<lambda>dd opts t prs. (Scalar None (pend prs, pend prs + 1, pend prs + 1) ''v'', [])),
      composeEmptyNode = (\<lambda>dd opts off start prs. (Scalar None (off, off, off) [], [])),
      resolveEnd = (\<lambda>e off strict. (([], off), [])),
      json_stringify = (\<lambda>s. CHR 0x22 # s @ [CHR 0x22])\<rparr>"

text \<open>A composer that has met an unsupported token before any document.\<close>

definition error_before_document :: "(unit, unit) composer" where
  "error_before_document =
     (Composer sample_ext ())
       \<lparr>errors := [\<lparr>pos = (0, 1), ecode = UNEXPECTED_TOKEN, message = ''Unsupported token scalar''\<rparr>]\<rparr>"

text \<open>A directive and two documents, neither with a start marker.\<close>

definition plain_documents :: "stream_token list" where
  "plain_documents =
     [Directive 0 ''%YAML 1.2'',
      DocumentToken (Document 10 [] (Some (Tok ''scalar'' ''a'')) None),
      DocumentToken (Document 12 [] (Some (Tok ''scalar'' ''b'')) None)]"

section \<open>The equations of the walk\<close>

lemma visit_rec_Suc:
  "visit_rec (Suc n) path item visitor s =
     (if is_symbol (fst (visitor s item path))
      then Some (Inr (fst (visitor s item path), snd (visitor s item path), item))
      else (case item of
              None \<Rightarrow> Some (Inl TypeError)
            | Some it \<Rightarrow>
                visit_fields n path [Key, Value] it
                  (fst (visitor s item path)) visitor (snd (visitor s item path))))"
  by (simp add: split_beta)

lemma visit_fields_Nil:
  "visit_fields n path [] it ctrl visitor s =
     Some (Inr (fst (at_exit ctrl s it path), snd (at_exit ctrl s it path), Some it))"
  by (simp add: split_beta)

lemma visit_fields_Cons:
  "visit_fields n path (f # fs) it ctrl visitor s =
     (case coll_items (item_field it f) of
        None \<Rightarrow> visit_fields n path fs it ctrl visitor s
      | Some (t, xs) \<Rightarrow>
          (case visit_items n path f xs 0 visitor s of
             None \<Rightarrow> None
           | Some (Inl e) \<Rightarrow> Some (Inl e)
           | Some (Inr (brk, s1, xs1)) \<Rightarrow>
               if brk then Some (Inr (Sym BREAK, s1, Some (set_field it f (Coll t xs1))))
               else visit_fields n path fs (set_field it f (Coll t xs1))
                      (fst (after_key ctrl f s1 (set_field it f (Coll t xs1)) path))
                      visitor
                      (snd (after_key ctrl f s1 (set_field it f (Coll t xs1)) path))))"
  by (simp add: split_beta Let_def split: option.splits sum.splits)

declare visit_rec.simps(2) [simp del] visit_fields.simps [simp del]
declare visit_rec_Suc [simp] visit_fields_Nil [simp] visit_fields_Cons [simp]

section \<open>Paths\<close>

lemma itemAtPath_loop_None: "itemAtPath_loop None ps = None"
  by (cases ps) (auto simp: opt_field_def)

lemma itemAtPath_loop_snoc:
  "itemAtPath_loop item (ps @ [(f, i)]) =
     (case coll_items (opt_field (itemAtPath_loop item ps) f) of
        Some (t, xs) \<Rightarrow> map_option It (js_nth xs i)
      | None \<Rightarrow> None)"
proof (induction ps arbitrary: item)
  case Nil
  show ?case
    by (cases "opt_field item f" rule: coll_items.cases) simp_all
next
  case (Cons a ps)
  obtain g j where a: "a = (g, j)" by (cases a)
  show ?case
    using Cons.IH
    by (cases "opt_field item g" rule: coll_items.cases)
       (simp_all add: a itemAtPath_loop_None opt_field_def)
qed

text \<open>C10: on the empty path \<^verbatim>\<open>itemAtPath\<close> returns the root it was given, whatever
  it is; a document comes back as the document, not as the item \<^verbatim>\<open>{ start, value }\<close>
  that \<^verbatim>\<open>visit\<close> walks in its place.\<close>

theorem itemAtPath_empty_path:
  "itemAtPath cst [] = Some cst \<and> itemAtPath (Doc d) [] = Some (Doc d)
   \<and> itemAtPath (Doc d) [] \<noteq> Some (It (root_item (Doc d)))"
  by (simp add: itemAtPath_def)

text \<open>C4, as stated, fails on the empty path: \<^verbatim>\<open>itemAtPath\<close> returns the root, and
  \<^verbatim>\<open>parentCollection\<close> raises a TypeError when it reads the last step of the path.\<close>

theorem parentCollection_empty_path_throws:
  "itemAtPath (It (Item [] None [] None)) [] = Some (It (Item [] None [] None))
   \<and> parentCollection (It (Item [] None [] None)) [] = Inl TypeError"
  by (simp add: itemAtPath_def parentCollection_def)

text \<open>C4, amended: when \<^verbatim>\<open>itemAtPath\<close> returns a defined item, \<^verbatim>\<open>parentCollection\<close>
  never reaches its "Parent collection not found" branch, and on every path that is not empty
  it returns the collection whose item list holds that item at the last index of the path;
  on the empty path it raises a TypeError.\<close>

theorem parentCollection_found:
  assumes "itemAtPath cst path = Some n"
  shows "parentCollection cst path \<noteq> Inl (Error ''Parent collection not found'')
         \<and> (path \<noteq> [] \<longrightarrow>
              (\<exists>t xs. parentCollection cst path = Inr (Coll t xs)
                      \<and> map_option It (js_nth xs (snd (last path))) = Some n))
         \<and> (path = [] \<longrightarrow> parentCollection cst path = Inl TypeError)"
proof (cases path rule: rev_cases)
  case Nil
  then show ?thesis by (simp add: parentCollection_def)
next
  case (snoc ps a)
  obtain f i where a: "a = (f, i)" by (cases a)
  from assms have "itemAtPath_loop (Some cst) (ps @ [(f, i)]) = Some n"
    by (simp add: itemAtPath_def snoc a)
  then obtain t xs where
      c: "opt_field (itemAtPath_loop (Some cst) ps) f = Some (Coll t xs)"
      and x: "map_option It (js_nth xs i) = Some n"
    unfolding itemAtPath_loop_snoc
    by (cases "opt_field (itemAtPath_loop (Some cst) ps) f" rule: coll_items.cases) auto
  show ?thesis
    using c x by (simp add: parentCollection_def snoc a itemAtPath_def)
qed

theorem parentCollection_found_witness:
  "itemAtPath (It (Item [] None [] (Some (Coll ''block-seq'' [Item [] None [] None]))))
     [(Value, 0)] = Some (It (Item [] None [] None))
   \<and> parentCollection (It (Item [] None [] (Some (Coll ''block-seq'' [Item [] None [] None]))))
        [(Value, 0)] = Inr (Coll ''block-seq'' [Item [] None [] None])"
  using parentCollection_found
    [of "It (Item [] None [] (Some (Coll ''block-seq'' [Item [] None [] None])))"
        "[(Value, 0)]" "It (Item [] None [] None)"]
  by (simp add: itemAtPath_def opt_field_def js_nth_def parentCollection_def)

section \<open>Visitors that do not steer the walk\<close>

lemma run_Nil [simp]: "run g s [] = s"
  by (simp add: run_def)

lemma run_Cons [simp]: "run g s ((x, q) # l) = run g (g s x q) l"
  by (simp add: run_def)

lemma run_append [simp]: "run g s (l @ m) = run g (run g s l) m"
  by (simp add: run_def)

lemma weight_ge2: "2 \<le> weight it"
  by (cases it) simp

lemma lweight_ge_length: "length xs \<le> lweight xs"
proof (induction xs)
  case (Cons x xs)
  then show ?case using weight_ge2 [of x] by simp
qed simp

lemma below_snoc: "below (p @ [a]) \<subseteq> below p"
  by (auto simp: below_def dest: append_prefixD)

lemma set_field_same: "item_field it f = Some (Coll t xs) \<Longrightarrow> set_field it f (Coll t xs) = it"
  by (cases it; cases f) simp_all

lemma coll_items_Some: "coll_items tok = Some (t, xs) \<longleftrightarrow> tok = Some (Coll t xs)"
  by (cases tok rule: coll_items.cases) auto

lemma js_nth_mid: "js_nth (pre @ x # post) (int (length pre)) = Some x"
  by (simp add: js_nth_def)

lemma put_back_mid: "put_back (pre @ x # post) (int (length pre)) (Some x) = pre @ x # post"
  by (simp add: put_back_def)

lemma visit_quiet:
  fixes v :: "'s visitor"
  assumes q: "quiet S R v g"
  shows "\<forall>F s. s \<in> S \<longrightarrow> below p \<subseteq> R \<longrightarrow> weight it \<le> F \<longrightarrow>
           visit_rec F p (Some it) v s = Some (Inr (Void, run g s (all_items p it), Some it))
           \<and> run g s (all_items p it) \<in> S"
    and "\<forall>F s. s \<in> S \<longrightarrow> below p \<subseteq> R \<longrightarrow> 1 + tweight tok \<le> F \<longrightarrow>
           (\<forall>t xs. tok = Some (Coll t xs) \<longrightarrow>
              visit_items F p f xs 0 v s = Some (Inr (False, run g s (token_items p f tok), xs)))
           \<and> run g s (token_items p f tok) \<in> S"
    and "\<forall>F s pre post. s \<in> S \<longrightarrow> i = int (length pre) \<longrightarrow>
           (\<forall>j. i \<le> j \<and> j < i + int (length ys) \<longrightarrow> below (p @ [(f, j)]) \<subseteq> R) \<longrightarrow>
           1 + lweight ys \<le> F \<longrightarrow>
           visit_items F p f (pre @ ys @ post) i v s =
             visit_items (F - length ys) p f (pre @ ys @ post) (i + int (length ys)) v
               (run g s (list_items p f i ys))
           \<and> run g s (list_items p f i ys) \<in> S"
proof (induction p it and p f tok and p f i ys rule: all_items_token_items_list_items.induct)
  case (1 p st k sp v')
  show ?case
  proof (intro allI impI)
    fix F s
    assume s: "s \<in> S" and R: "below p \<subseteq> R" and F: "weight (Item st k sp v') \<le> F"
    let ?it = "Item st k sp v'"
    obtain n where n: "F = Suc n" "1 + tweight k \<le> n" "1 + tweight v' \<le> n"
      using F by (cases F) auto
    have pR: "p \<in> R" using R by (auto simp: below_def)
    have e: "v s (Some ?it) p = (Void, g s ?it p)" and s1: "g s ?it p \<in> S"
      using q s pR by (auto simp: quiet_def)
    let ?s1 = "g s ?it p"
    let ?s2 = "run g ?s1 (token_items p Key k)"
    let ?s3 = "run g ?s2 (token_items p Value v')"
    have k: "\<forall>t xs. k = Some (Coll t xs) \<longrightarrow>
               visit_items n p Key xs 0 v ?s1 = Some (Inr (False, ?s2, xs))"
      and s2: "?s2 \<in> S"
      using "1.IH"(1) s1 R n by blast+
    have vv: "\<forall>t xs. v' = Some (Coll t xs) \<longrightarrow>
               visit_items n p Value xs 0 v ?s2 = Some (Inr (False, ?s3, xs))"
      and s3: "?s3 \<in> S"
      using "1.IH"(2) s2 R n by blast+
    have kf: "visit_fields n p [Key, Value] ?it Void v ?s1 = visit_fields n p [Value] ?it Void v ?s2"
      using k by (cases k rule: coll_items.cases) simp_all
    have vf: "visit_fields n p [Value] ?it Void v ?s2 = Some (Inr (Void, ?s3, Some ?it))"
      using vv by (cases v' rule: coll_items.cases) simp_all
    show "visit_rec F p (Some ?it) v s = Some (Inr (Void, run g s (all_items p ?it), Some ?it))
           \<and> run g s (all_items p ?it) \<in> S"
      using e kf vf s3 by (simp add: n(1))
  qed
next
  case (2 p f)
  then show ?case by simp
next
  case (3 p f t src)
  then show ?case by simp
next
  case (4 p f t xs)
  show ?case
  proof (intro allI impI)
    fix F s
    assume s: "s \<in> S" and R: "below p \<subseteq> R" and F: "1 + tweight (Some (Coll t xs)) \<le> F"
    have r: "\<forall>j. 0 \<le> j \<and> j < 0 + int (length xs) \<longrightarrow> below (p @ [(f, j)]) \<subseteq> R"
      using R below_snoc by blast
    have "visit_items F p f ([] @ xs @ []) 0 v s =
             visit_items (F - length xs) p f ([] @ xs @ []) (0 + int (length xs)) v
               (run g s (list_items p f 0 xs))
           \<and> run g s (list_items p f 0 xs) \<in> S"
      using "4.IH" s r F by (metis list.size(3) of_nat_0 tweight.simps(3))
    moreover obtain m where "F - length xs = Suc m"
      using F lweight_ge_length [of xs] by (cases "F - length xs") auto
    ultimately show "(\<forall>t' xs'. Some (Coll t xs) = Some (Coll t' xs') \<longrightarrow>
              visit_items F p f xs' 0 v s =
                Some (Inr (False, run g s (token_items p f (Some (Coll t xs))), xs')))
           \<and> run g s (token_items p f (Some (Coll t xs))) \<in> S"
      by simp
  qed
next
  case (5 p f i)
  then show ?case by simp
next
  case (6 p f i x xs)
  show ?case
  proof (intro allI impI)
    fix F s and pre post :: "item list"
    assume s: "s \<in> S" and i: "i = int (length pre)"
      and r: "\<forall>j. i \<le> j \<and> j < i + int (length (x # xs)) \<longrightarrow> below (p @ [(f, j)]) \<subseteq> R"
      and F: "1 + lweight (x # xs) \<le> F"
    obtain n where n: "F = Suc n" "weight x \<le> n" "1 + lweight xs \<le> n"
      using F weight_ge2 [of x] by (cases F) auto
    have Ri: "below (p @ [(f, i)]) \<subseteq> R" using r by simp
    let ?s1 = "run g s (all_items (p @ [(f, i)]) x)"
    have c: "visit_rec n (p @ [(f, i)]) (Some x) v s = Some (Inr (Void, ?s1, Some x))"
      and s1: "?s1 \<in> S"
      using "6.IH"(1) s Ri n by blast+
    have r': "\<forall>j. i + 1 \<le> j \<and> j < i + 1 + int (length xs) \<longrightarrow> below (p @ [(f, j)]) \<subseteq> R"
      using r by simp
    have i': "i + 1 = int (length (pre @ [x]))" using i by simp
    have rest: "visit_items n p f ((pre @ [x]) @ xs @ post) (i + 1) v ?s1 =
             visit_items (n - length xs) p f ((pre @ [x]) @ xs @ post) (i + 1 + int (length xs)) v
               (run g ?s1 (list_items p f (i + 1) xs))
           \<and> run g ?s1 (list_items p f (i + 1) xs) \<in> S"
      using "6.IH"(2) s1 i' r' n(3) by blast
    have lt: "i < int (length (pre @ (x # xs) @ post))" using i by simp
    have nth: "js_nth (pre @ (x # xs) @ post) i = Some x"
      using js_nth_mid [of pre x "xs @ post"] i by simp
    have pb: "put_back (pre @ (x # xs) @ post) i (Some x) = pre @ (x # xs) @ post"
      using put_back_mid [of pre x "xs @ post"] i by simp
    have step: "visit_items F p f (pre @ (x # xs) @ post) i v s =
            visit_items n p f (pre @ (x # xs) @ post) (i + 1) v ?s1"
      unfolding n(1) visit_items.simps using lt nth c pb by simp
    have rest1: "visit_items n p f (pre @ (x # xs) @ post) (i + 1) v ?s1 =
             visit_items (n - length xs) p f (pre @ (x # xs) @ post) (i + 1 + int (length xs)) v
               (run g ?s1 (list_items p f (i + 1) xs))"
      and rest2: "run g ?s1 (list_items p f (i + 1) xs) \<in> S"
      using rest by simp_all
    have e1: "F - length (x # xs) = n - length xs" using n(1) by simp
    have e2: "i + int (length (x # xs)) = i + 1 + int (length xs)" by simp
    have e3: "run g s (list_items p f i (x # xs)) = run g ?s1 (list_items p f (i + 1) xs)"
      by simp
    show "visit_items F p f (pre @ (x # xs) @ post) i v s =
             visit_items (F - length (x # xs)) p f (pre @ (x # xs) @ post)
               (i + int (length (x # xs))) v (run g s (list_items p f i (x # xs)))
           \<and> run g s (list_items p f i (x # xs)) \<in> S"
      unfolding e1 e2 e3 using step rest1 rest2 by (simp only: simp_thms)
  qed
qed

lemma paths_shape:
  "\<forall>q \<in> snd ` set (all_items p it). prefix p q"
  "\<forall>q \<in> snd ` set (token_items p f tok). \<exists>j r. q = p @ (f, j) # r"
  "\<forall>q \<in> snd ` set (list_items p f i ys). \<exists>j r. i \<le> j \<and> q = p @ (f, j) # r"
proof (induction p it and p f tok and p f i ys rule: all_items_token_items_list_items.induct)
  case (1 p st k sp v)
  then show ?case by (fastforce simp: image_Un)
next
  case (4 p f t xs)
  then show ?case by fastforce
next
  case (6 p f i x xs)
  have "\<forall>q \<in> snd ` set (all_items (p @ [(f, i)]) x). \<exists>j r. i \<le> j \<and> q = p @ (f, j) # r"
    using "6.IH"(1) by (auto simp: prefix_def)
  moreover have "\<forall>q \<in> snd ` set (list_items p f (i + 1) xs). \<exists>j r. i \<le> j \<and> q = p @ (f, j) # r"
    using "6.IH"(2) by force
  ultimately show ?case by (auto simp: image_Un)
qed simp_all

lemma paths_distinct:
  "distinct (map snd (all_items p it))"
  "distinct (map snd (token_items p f tok))"
  "distinct (map snd (list_items p f i ys))"
proof (induction p it and p f tok and p f i ys rule: all_items_token_items_list_items.induct)
  case (1 p st k sp v)
  have a: "p \<notin> snd ` set (token_items p Key k)" "p \<notin> snd ` set (token_items p Value v)"
    using paths_shape(2) [of p Key k] paths_shape(2) [of p Value v] by auto
  have b: "snd ` set (token_items p Key k) \<inter> snd ` set (token_items p Value v) = {}"
    using paths_shape(2) [of p Key k] paths_shape(2) [of p Value v] by fastforce
  show ?case using 1 a b by simp
next
  case (6 p f i x xs)
  have "snd ` set (all_items (p @ [(f, i)]) x) \<inter> snd ` set (list_items p f (i + 1) xs) = {}"
  proof (rule ccontr)
    assume "\<not> ?thesis"
    then obtain q where q1: "q \<in> snd ` set (all_items (p @ [(f, i)]) x)"
      and q2: "q \<in> snd ` set (list_items p f (i + 1) xs)" by auto
    from q1 paths_shape(1) [of "p @ [(f, i)]" x] obtain r where "q = p @ (f, i) # r"
      by (force simp: prefix_def)
    moreover from q2 paths_shape(3) [of p f "i + 1" xs] obtain j r'
      where "i + 1 \<le> j" "q = p @ (f, j) # r'" by blast
    ultimately show False by simp
  qed
  then show ?case using 6 by simp
qed simp_all

lemma itemAtPath_loop_Cons_Some:
  "itemAtPath_loop (Some (It it)) ((f, j) # r) =
     (case coll_items (item_field it f) of
        Some (t, xs) \<Rightarrow> itemAtPath_loop (map_option It (js_nth xs j)) r
      | None \<Rightarrow> None)"
  by (cases "item_field it f" rule: coll_items.cases) (simp_all add: opt_field_def)

lemma paths_resolve:
  "\<forall>x q. (x, q) \<in> set (all_items p it) \<longleftrightarrow>
      (\<exists>r. q = p @ r \<and> itemAtPath_loop (Some (It it)) r = Some (It x))"
  "\<forall>x q. (x, q) \<in> set (token_items p f tok) \<longleftrightarrow>
      (\<exists>j r t xs. tok = Some (Coll t xs) \<and> q = p @ (f, j) # r
         \<and> itemAtPath_loop (map_option It (js_nth xs j)) r = Some (It x))"
  "\<forall>x q. (x, q) \<in> set (list_items p f i ys) \<longleftrightarrow>
      (\<exists>j r. i \<le> j \<and> j < i + int (length ys) \<and> q = p @ (f, j) # r
         \<and> itemAtPath_loop (Some (It (ys ! nat (j - i)))) r = Some (It x))"
proof (induction p it and p f tok and p f i ys rule: all_items_token_items_list_items.induct)
  case (1 p st k sp v)
  let ?it = "Item st k sp v"
  show ?case
  proof (intro allI iffI)
    fix x q
    assume "(x, q) \<in> set (all_items p ?it)"
    then consider "x = ?it" "q = p" | "(x, q) \<in> set (token_items p Key k)"
      | "(x, q) \<in> set (token_items p Value v)" by auto
    then show "\<exists>r. q = p @ r \<and> itemAtPath_loop (Some (It ?it)) r = Some (It x)"
    proof cases
      case 1
      then show ?thesis by simp
    next
      case 2
      then obtain j r t xs where "k = Some (Coll t xs)" "q = p @ (Key, j) # r"
          "itemAtPath_loop (map_option It (js_nth xs j)) r = Some (It x)"
        using "1.IH"(1) by blast
      then show ?thesis by (auto simp: opt_field_def)
    next
      case 3
      then obtain j r t xs where "v = Some (Coll t xs)" "q = p @ (Value, j) # r"
          "itemAtPath_loop (map_option It (js_nth xs j)) r = Some (It x)"
        using "1.IH"(2) by blast
      then show ?thesis by (auto simp: opt_field_def)
    qed
  next
    fix x q
    assume "\<exists>r. q = p @ r \<and> itemAtPath_loop (Some (It ?it)) r = Some (It x)"
    then obtain r where q: "q = p @ r" and r: "itemAtPath_loop (Some (It ?it)) r = Some (It x)"
      by blast
    show "(x, q) \<in> set (all_items p ?it)"
    proof (cases r)
      case Nil
      then have "x = ?it" "q = p" using q r by auto
      then show ?thesis by simp
    next
      case (Cons a r')
      obtain f j where a: "a = (f, j)" by (cases a)
      from r obtain t xs where c: "item_field ?it f = Some (Coll t xs)"
        and l: "itemAtPath_loop (map_option It (js_nth xs j)) r' = Some (It x)"
        unfolding Cons a itemAtPath_loop_Cons_Some
        by (cases "item_field ?it f" rule: coll_items.cases) auto
      show ?thesis
      proof (cases f)
        case Key
        then have "(x, q) \<in> set (token_items p Key k)"
          using "1.IH"(1) c l q Cons a by auto
        then show ?thesis by simp
      next
        case Value
        then have "(x, q) \<in> set (token_items p Value v)"
          using "1.IH"(2) c l q Cons a by auto
        then show ?thesis by simp
      qed
    qed
  qed
next
  case (2 p f)
  then show ?case by simp
next
  case (3 p f t src)
  then show ?case by simp
next
  case (4 p f t xs)
  show ?case
  proof (intro allI iffI)
    fix x q
    assume "(x, q) \<in> set (token_items p f (Some (Coll t xs)))"
    then obtain j r where j: "0 \<le> j" "j < int (length xs)" and q: "q = p @ (f, j) # r"
      and l: "itemAtPath_loop (Some (It (xs ! nat j))) r = Some (It x)"
      using "4.IH" by auto
    have "js_nth xs j = Some (xs ! nat j)" using j by (simp add: js_nth_def)
    then show "\<exists>j r t' xs'. Some (Coll t xs) = Some (Coll t' xs') \<and> q = p @ (f, j) # r
         \<and> itemAtPath_loop (map_option It (js_nth xs' j)) r = Some (It x)"
      using q l by auto
  next
    fix x q
    assume "\<exists>j r t' xs'. Some (Coll t xs) = Some (Coll t' xs') \<and> q = p @ (f, j) # r
         \<and> itemAtPath_loop (map_option It (js_nth xs' j)) r = Some (It x)"
    then obtain j r where q: "q = p @ (f, j) # r"
      and l: "itemAtPath_loop (map_option It (js_nth xs j)) r = Some (It x)" by auto
    have j: "0 \<le> j \<and> j < int (length xs)"
      using l by (cases "0 \<le> j \<and> j < int (length xs)") (auto simp: js_nth_def itemAtPath_loop_None)
    then have "itemAtPath_loop (Some (It (xs ! nat j))) r = Some (It x)"
      using l by (simp add: js_nth_def)
    then show "(x, q) \<in> set (token_items p f (Some (Coll t xs)))"
      using "4.IH" q j by auto
  qed
next
  case (5 p f i)
  then show ?case by simp
next
  case (6 p f i y ys)
  show ?case
  proof (intro allI iffI)
    fix x q
    assume "(x, q) \<in> set (list_items p f i (y # ys))"
    then consider "(x, q) \<in> set (all_items (p @ [(f, i)]) y)"
      | "(x, q) \<in> set (list_items p f (i + 1) ys)" by auto
    then show "\<exists>j r. i \<le> j \<and> j < i + int (length (y # ys)) \<and> q = p @ (f, j) # r
         \<and> itemAtPath_loop (Some (It ((y # ys) ! nat (j - i)))) r = Some (It x)"
    proof cases
      case 1
      then obtain r where "q = (p @ [(f, i)]) @ r" "itemAtPath_loop (Some (It y)) r = Some (It x)"
        using "6.IH"(1) by blast
      then show ?thesis by (intro exI [of _ i] exI [of _ r]) simp
    next
      case 2
      then obtain j r where j: "i + 1 \<le> j" "j < i + 1 + int (length ys)" and q: "q = p @ (f, j) # r"
        and l: "itemAtPath_loop (Some (It (ys ! nat (j - (i + 1))))) r = Some (It x)"
        using "6.IH"(2) by blast
      have "nat (j - i) = Suc (nat (j - (i + 1)))" using j by simp
      then have "(y # ys) ! nat (j - i) = ys ! nat (j - (i + 1))" by simp
      then show ?thesis using j q l by (intro exI [of _ j] exI [of _ r]) simp
    qed
  next
    fix x q
    assume "\<exists>j r. i \<le> j \<and> j < i + int (length (y # ys)) \<and> q = p @ (f, j) # r
         \<and> itemAtPath_loop (Some (It ((y # ys) ! nat (j - i)))) r = Some (It x)"
    then obtain j r where j: "i \<le> j" "j < i + int (length (y # ys))" and q: "q = p @ (f, j) # r"
      and l: "itemAtPath_loop (Some (It ((y # ys) ! nat (j - i)))) r = Some (It x)" by blast
    show "(x, q) \<in> set (list_items p f i (y # ys))"
    proof (cases "j = i")
      case True
      then have "(x, q) \<in> set (all_items (p @ [(f, i)]) y)"
        using "6.IH"(1) q l by auto
      then show ?thesis by simp
    next
      case False
      then have j': "i + 1 \<le> j" "j < i + 1 + int (length ys)" using j by auto
      have "nat (j - i) = Suc (nat (j - (i + 1)))" using j' by simp
      then have "(y # ys) ! nat (j - i) = ys ! nat (j - (i + 1))" by simp
      then have "(x, q) \<in> set (list_items p f (i + 1) ys)"
        using "6.IH"(2) q l j' by auto
      then show ?thesis by simp
    qed
  qed
qed

text \<open>C1: a visitor that returns \<^verbatim>\<open>undefined\<close> at every call is called exactly once on
  every item of the tree, in depth-first order, the items under the key before those under
  the value: with enough fuel (the weight of the tree is enough) the walk returns, the
  visitor's final state is its state folded over \<open>all_items\<close> of the root item, and the
  tree is as it was; \<^verbatim>\<open>_visit\<close> returns \<^verbatim>\<open>undefined\<close> for the root, and \<^verbatim>\<open>visit\<close>
  nothing. The paths of \<open>all_items\<close> are pairwise distinct, and they are the paths that
  \<^verbatim>\<open>itemAtPath\<close> resolves to an item, each listed with that item.\<close>

theorem visit_noop_visitor:
  fixes visitor :: "'s visitor"
  assumes undef: "\<forall>s x q. fst (visitor s x q) = Void"
      and fuel: "weight (root_item cst) \<le> fuel"
  shows "visit fuel cst visitor s =
           Some (Inr (run (\<lambda>s x q. snd (visitor s (Some x) q)) s (all_items [] (root_item cst)), cst))
         \<and> (\<exists>s'. visit_rec fuel [] (Some (root_item cst)) visitor s =
                    Some (Inr (Void, s', Some (root_item cst))))
         \<and> distinct (map snd (all_items [] (root_item cst)))
         \<and> (\<forall>x q. (x, q) \<in> set (all_items [] (root_item cst)) \<longleftrightarrow>
                    itemAtPath (It (root_item cst)) q = Some (It x))"
proof -
  let ?g = "\<lambda>s x q. snd (visitor s (Some x) q)"
  have "quiet UNIV UNIV visitor ?g"
    unfolding quiet_def using undef by (simp add: prod_eq_iff)
  then have r: "visit_rec fuel [] (Some (root_item cst)) visitor s =
      Some (Inr (Void, run ?g s (all_items [] (root_item cst)), Some (root_item cst)))"
    using visit_quiet(1) [of UNIV UNIV visitor ?g "[]" "root_item cst"] fuel by simp
  have u: "root_update cst (Some (root_item cst)) = cst"
    by (cases cst) (simp_all add: root_update_def root_item_def)
  have v: "visit fuel cst visitor s =
      Some (Inr (run ?g s (all_items [] (root_item cst)), cst))"
    by (simp add: visit_def r u)
  show ?thesis
    using v r paths_distinct(1) [of "[]" "root_item cst"] paths_resolve(1) [of "[]" "root_item cst"]
    by (simp add: itemAtPath_def)
qed

theorem visit_noop_visitor_witness:
  "fst (log_paths [] None []) = Void
   \<and> weight (root_item (Doc (Document 0 [] (Some sample_map) None))) \<le> 20
   \<and> visit 20 (Doc (Document 0 [] (Some sample_map) None)) log_paths [] =
       Some (Inr ([[], [(Value, 0)], [(Value, 0), (Key, 0)], [(Value, 0), (Value, 0)], [(Value, 1)]],
                  Doc (Document 0 [] (Some sample_map) None)))"
  using visit_noop_visitor [of log_paths "Doc (Document 0 [] (Some sample_map) None)" 20 "[]"]
  by (simp add: root_item_def sample_map_def sample_items_def log_paths_def)

lemma visit_items_quiet_all:
  fixes v :: "'s visitor"
  assumes q: "quiet S R v g" and s: "s \<in> S"
    and r: "\<forall>j. below (p @ [(f, j)]) \<subseteq> R"
    and F: "1 + lweight xs \<le> F"
  shows "visit_items F p f xs 0 v s = Some (Inr (False, run g s (list_items p f 0 xs), xs))"
    and "run g s (list_items p f 0 xs) \<in> S"
proof -
  have a: "visit_items F p f ([] @ xs @ []) 0 v s =
             visit_items (F - length xs) p f ([] @ xs @ []) (0 + int (length xs)) v
               (run g s (list_items p f 0 xs))
           \<and> run g s (list_items p f 0 xs) \<in> S"
    using visit_quiet(3) [OF q, of 0 xs p f] s r F by (metis list.size(3) of_nat_0)
  obtain m where "F - length xs = Suc m"
    using F lweight_ge_length [of xs] by (cases "F - length xs") auto
  then show "visit_items F p f xs 0 v s = Some (Inr (False, run g s (list_items p f 0 xs), xs))"
    using a by simp
  show "run g s (list_items p f 0 xs) \<in> S" using a by simp
qed

lemma visit_fields_quiet:
  fixes v :: "'s visitor"
  assumes q: "quiet S R v g" and s: "s \<in> S"
    and r: "\<forall>j. below (p @ [(f, j)]) \<subseteq> R"
    and F: "1 + tweight (item_field it f) \<le> n"
    and c: "f = Key \<longrightarrow> (\<forall>h. ctrl \<noteq> Fun h)"
  shows "visit_fields n p (f # fs) it ctrl v s =
           visit_fields n p fs it ctrl v (run g s (token_items p f (item_field it f)))"
    and "run g s (token_items p f (item_field it f)) \<in> S"
proof -
  have k: "after_key ctrl f s' it p = (ctrl, s')" for s'
    using c by (cases "(ctrl, f, s', it, p)" rule: after_key.cases) auto
  show "visit_fields n p (f # fs) it ctrl v s =
           visit_fields n p fs it ctrl v (run g s (token_items p f (item_field it f)))"
  proof (cases "item_field it f" rule: coll_items.cases)
    case (1 t xs)
    then show ?thesis
      using visit_items_quiet_all(1) [OF q s r, of xs n] F k
      by (simp add: set_field_same)
  qed simp_all
  show "run g s (token_items p f (item_field it f)) \<in> S"
  proof (cases "item_field it f" rule: coll_items.cases)
    case (1 t xs)
    then show ?thesis
      using visit_items_quiet_all(2) [OF q s r, of xs n] F by simp
  qed (simp_all add: s)
qed

text \<open>C3 fails on the code. The top map of this document has two pairs; the first has
  a collection for key and a collection for value. The visitor returns a continuation when
  it enters the first pair, at \<^verbatim>\<open>[(value, 0)]\<close>, and the continuation returns
  \<^verbatim>\<open>BREAK\<close> when it is called after the key. The log lists the calls in order,
  \<open>True\<close> marking the continuation's: after the continuation has returned \<^verbatim>\<open>BREAK\<close>,
  the item under the first pair's value is still visited, at
  \<^verbatim>\<open>[(value, 0), (value, 0)]\<close>. The walk stops only afterwards, when the pair returns
  \<^verbatim>\<open>BREAK\<close> to the loop over the map's items: the second pair is not visited.\<close>

theorem break_after_key_still_visits_value:
  "visit 10 (Doc (Document 0 [] (Some sample_map) None)) (break_after_key_at [(Value, 0)]) [] =
     Some (Inr ([([], False), ([(Value, 0)], False), ([(Value, 0), (Key, 0)], False),
                 ([(Value, 0)], True), ([(Value, 0), (Value, 0)], False)],
                Doc (Document 0 [] (Some sample_map) None)))"
  by (simp add: visit_def root_item_def root_update_def eval_nat_numeral sample_map_def
        sample_items_def break_after_key_at_def js_nth_def put_back_def)
section \<open>The walk when items are removed: properties\<close>

lemma list_items_append:
  "list_items p f a (xs @ ys) = list_items p f a xs @ list_items p f (a + int (length xs)) ys"
proof (induction xs arbitrary: a)
  case (Cons x xs)
  show ?case using Cons.IH [of "a + 1"] by (simp add: add.assoc)
qed simp

lemma all_items_unfold:
  "all_items p it = (it, p) # token_items p Key (key it) @ token_items p Value (val it)"
  by (cases it) simp

lemma lweight_append: "lweight (xs @ ys) = lweight xs + lweight ys"
  by (induction xs) simp_all

lemma put_back_mid_new:
  "put_back (pre @ x # post) (int (length pre)) (Some y) = pre @ y # post"
  by (simp add: put_back_def)

lemma js_splice1_mid: "js_splice1 (pre @ x # post) (int (length pre)) = pre @ post"
  by (simp add: js_splice1_def)

lemma item_field_set_field:
  "item_field (set_field it f tok) f' = (if f' = f then Some tok else item_field it f')"
  by (cases it; cases f; cases f') simp_all

lemma set_field_keeps: "start (set_field it f tok) = start it" "sep (set_field it f tok) = sep it"
  by (cases it; cases f; simp)+

lemma visit_items_quiet_segment:
  fixes v :: "'s visitor"
  assumes q: "quiet S R v g" and s: "s \<in> S"
    and r: "\<forall>j. int (length pre) \<le> j \<and> j < int (length pre) + int (length ys)
              \<longrightarrow> below (p @ [(f, j)]) \<subseteq> R"
    and F: "1 + lweight ys \<le> F"
  shows "visit_items F p f (pre @ ys @ post) (int (length pre)) v s =
           visit_items (F - length ys) p f (pre @ ys @ post)
             (int (length pre) + int (length ys)) v
             (run g s (list_items p f (int (length pre)) ys))"
    and "run g s (list_items p f (int (length pre)) ys) \<in> S"
  using visit_quiet(3) [OF q, where i = "int (length pre)" and ys = ys and p = p and f = f] s r F
  by blast+

lemma below_other_index:
  "j' \<noteq> j \<Longrightarrow> below (p @ [(f, j')]) \<subseteq> UNIV - {p @ (f, j) # R'}"
  by (auto simp: below_def prefix_def)

lemma below_other_field:
  "f' \<noteq> f \<Longrightarrow> below (p @ [(f', j')]) \<subseteq> UNIV - {p @ (f, j) # R'}"
  by (auto simp: below_def prefix_def)

lemma all_items_field_split:
  "all_items p it =
     (it, p) # items_before_field p f it @ token_items p f (item_field it f)
       @ items_after_field p f it"
  by (cases f) (simp_all add: all_items_unfold [of p it] items_before_field_def
      items_after_field_def)

lemma set_field_sides:
  "items_before_field p f (set_field it f tok) = items_before_field p f it"
  "items_after_field p f (set_field it f tok) = items_after_field p f it"
  by (cases it; cases f; simp add: items_before_field_def items_after_field_def)+

lemma all_items_set_field:
  "all_items p (set_field it f (Coll t ys)) =
     (set_field it f (Coll t ys), p) # items_before_field p f it @ list_items p f 0 ys
       @ items_after_field p f it"
  using all_items_field_split [of p "set_field it f (Coll t ys)" f]
  by (simp add: set_field_sides item_field_set_field del: item_field.simps)

lemma all_items_field_coll:
  "item_field it f = Some (Coll t ys) \<Longrightarrow>
   all_items p it =
     (it, p) # items_before_field p f it @ list_items p f 0 ys @ items_after_field p f it"
  using all_items_field_split [of p it f] by simp

lemma list_items_mid:
  "list_items p f 0 (pre @ c # post) =
     list_items p f 0 pre @ all_items (p @ [(f, int (length pre))]) c
       @ list_items p f (int (length pre) + 1) post"
  by (simp add: list_items_append)

lemma visit_rec_symbol:
  "v s x p = (Sym y, s1) \<Longrightarrow> 1 \<le> n \<Longrightarrow> visit_rec n p x v s = Some (Inr (Sym y, s1, x))"
  by (cases n) simp_all

lemma removal_trace_extend:
  assumes "removal_trace b a L1 Mb Ma L3" and "map snd X' = map snd X"
  shows "removal_trace (X @ b @ Y) (X' @ a @ Y) (X @ L1) Mb Ma (L3 @ Y)"
  using assms by (auto simp: removal_trace_def)

lemma quiet_step:
  assumes "\<forall>s y q. q \<noteq> P \<longrightarrow> fst (v s (Some y) q) = Void"
  shows "quiet UNIV (UNIV - {P}) v (step v)"
  using assms by (simp add: quiet_def step_def prod_eq_iff)

lemma visit_items_tail:
  fixes v :: "'s visitor"
  assumes q: "quiet S R v g" and s: "s \<in> S"
    and r: "\<forall>j. int (length pre) \<le> j \<longrightarrow> below (p @ [(f, j)]) \<subseteq> R"
    and n: "1 + lweight post \<le> n"
  shows "visit_items n p f (pre @ post) (int (length pre)) v s =
           Some (Inr (False, run g s (list_items p f (int (length pre)) post), pre @ post))"
    and "run g s (list_items p f (int (length pre)) post) \<in> S"
proof -
  have a: "visit_items n p f (pre @ post @ []) (int (length pre)) v s =
             visit_items (n - length post) p f (pre @ post @ [])
               (int (length pre) + int (length post)) v
               (run g s (list_items p f (int (length pre)) post))"
    and b: "run g s (list_items p f (int (length pre)) post) \<in> S"
    using visit_items_quiet_segment(1) [OF q s, where pre = pre and ys = post and p = p and f = f
        and F = n and post = "[]"]
      visit_items_quiet_segment(2) [OF q s, where pre = pre and ys = post and p = p and f = f
        and F = n] n r by simp_all
  obtain m where "n - length post = Suc m"
    using n lweight_ge_length [of post] by (cases "n - length post") auto
  then show "visit_items n p f (pre @ post) (int (length pre)) v s =
           Some (Inr (False, run g s (list_items p f (int (length pre)) post), pre @ post))"
    using a by simp
  show "run g s (list_items p f (int (length pre)) post) \<in> S" by (rule b)
qed

lemma below_strict: "below (P @ [a]) \<subseteq> UNIV - {P}"
  by (auto simp: below_def prefix_def)

lemma visit_rec_entry_void:
  fixes v :: "'s visitor"
  assumes qu: "quiet UNIV (UNIV - {P}) v (step v)"
    and e: "fst (v s (Some y) P) = Void"
    and n: "weight y \<le> n"
  shows "visit_rec n P (Some y) v s = Some (Inr (Void, run (step v) s (all_items P y), Some y))"
proof -
  obtain m where m: "n = Suc m" "1 + tweight (key y) \<le> m" "1 + tweight (val y) \<le> m"
    using n by (cases n; cases y) auto
  let ?s0 = "step v s y P"
  let ?s1 = "run (step v) ?s0 (token_items P Key (key y))"
  let ?s2 = "run (step v) ?s1 (token_items P Value (val y))"
  have r: "\<forall>j. below (P @ [(f, j)]) \<subseteq> UNIV - {P}" for f
    using below_strict by blast
  have a: "visit_fields m P [Key, Value] y Void v ?s0 = visit_fields m P [Value] y Void v ?s1"
    using visit_fields_quiet(1) [OF qu UNIV_I r, where it = y and f = Key and n = m
        and ctrl = Void and fs = "[Value]" and s = ?s0] m(2) by simp
  have b: "visit_fields m P [Value] y Void v ?s1 = visit_fields m P [] y Void v ?s2"
    using visit_fields_quiet(1) [OF qu UNIV_I r, where it = y and f = Value and n = m
        and ctrl = Void and fs = "[]" and s = ?s1] m(3) by simp
  have c: "run (step v) s (all_items P y) = ?s2"
    by (simp add: all_items_unfold [of P y])
  show ?thesis
    unfolding c using e a b by (simp add: m(1) step_def)
qed

lemma calls_at_simps [simp]:
  "calls_at P [] = []" "calls_at P (y # ys) = (y, P) # calls_at P ys"
  by (simp_all add: calls_at_def)

lemma removes_Nil: "removes v P s [] 0"
  by (simp add: removes_def)

lemma removes_stop: "fst (v s (Some y) P) = Void \<Longrightarrow> removes v P s (y # ys) 0"
  by (simp add: removes_def)

lemma removes_Cons:
  assumes "fst (v s (Some y) P) = Sym REMOVE" and "removes v P (snd (v s (Some y) P)) ys k"
  shows "removes v P s (y # ys) (Suc k)"
  using assms by (auto simp: removes_def less_Suc_eq_0_disj step_def)

lemma removal_run:
  fixes v :: "'s visitor"
  assumes qu: "quiet UNIV (UNIV - {P}) v (step v)"
    and atP: "\<forall>s y. fst (v s (Some y) P) = Void \<or> fst (v s (Some y) P) = Sym REMOVE"
    and P: "P = p @ [(f, int (length pre))]"
  shows "\<exists>k. removes v P s post k \<and>
           (\<forall>n. 1 + lweight post \<le> n \<longrightarrow>
              visit_items n p f (pre @ post) (int (length pre)) v s =
                Some (Inr (False,
                           run (step v) s (calls_at P (take k post)
                              @ list_items p f (int (length pre)) (drop k post)),
                           pre @ drop k post)))"
proof (induction post arbitrary: s)
  case Nil
  have "visit_items n p f (pre @ []) (int (length pre)) v s = Some (Inr (False, s, pre))"
    if "1 \<le> n" for n
    using that by (cases n) simp_all
  then show ?case using removes_Nil [of v P s] by (intro exI [of _ 0]) simp
next
  case (Cons y post)
  let ?i = "int (length pre)"
  have lt: "?i < int (length (pre @ y # post))" by simp
  have nth: "js_nth (pre @ y # post) ?i = Some y" by (rule js_nth_mid)
  have pb: "put_back (pre @ y # post) ?i (Some y) = pre @ y # post" by (rule put_back_mid)
  have sp: "js_splice1 (pre @ y # post) ?i = pre @ post" by (rule js_splice1_mid)
  have w2: "2 \<le> weight y" by (rule weight_ge2)
  show ?case
  proof (cases "fst (v s (Some y) P) = Void")
    case True
    have r: "\<forall>j. int (length (pre @ [y])) \<le> j \<longrightarrow> below (p @ [(f, j)]) \<subseteq> UNIV - {P}"
      unfolding P using below_other_index [of _ ?i p f "[]"] by auto
    have run: "visit_items n p f (pre @ y # post) ?i v s =
                Some (Inr (False, run (step v) s (list_items p f ?i (y # post)), pre @ y # post))"
      if n: "1 + lweight (y # post) \<le> n" for n
    proof -
      obtain m where m: "n = Suc m" "weight y \<le> m" "1 + lweight post \<le> m"
        using n w2 by (cases n) auto
      have c: "visit_rec m (p @ [(f, ?i)]) (Some y) v s =
                 Some (Inr (Void, run (step v) s (all_items P y), Some y))"
        using visit_rec_entry_void [OF qu True m(2)] P by simp
      have step1: "visit_items (Suc m) p f (pre @ y # post) ?i v s =
                  visit_items m p f (pre @ y # post) (?i + 1) v (run (step v) s (all_items P y))"
        unfolding visit_items.simps using lt nth c pb by simp
      have tl: "visit_items m p f ((pre @ [y]) @ post) (int (length (pre @ [y]))) v
                  (run (step v) s (all_items P y)) =
                Some (Inr (False,
                           run (step v) (run (step v) s (all_items P y))
                             (list_items p f (int (length (pre @ [y]))) post),
                           (pre @ [y]) @ post))"
        by (rule visit_items_tail(1) [OF qu UNIV_I r m(3)])
      have st: "run (step v) s (list_items p f ?i (y # post)) =
                run (step v) (run (step v) s (all_items P y))
                  (list_items p f (int (length (pre @ [y]))) post)"
        by (simp add: P add.commute)
      show ?thesis
        unfolding m(1) step1 st using tl by (simp add: add.commute)
    qed
    show ?thesis
      using run removes_stop [where v = v and s = s and y = y and P = P and ys = post] True
      by (intro exI [of _ 0]) simp
  next
    case False
    then have rm: "fst (v s (Some y) P) = Sym REMOVE" using atP by blast
    let ?s' = "snd (v s (Some y) P)"
    obtain k where k: "removes v P ?s' post k"
      and run': "\<forall>n. 1 + lweight post \<le> n \<longrightarrow>
              visit_items n p f (pre @ post) ?i v ?s' =
                Some (Inr (False,
                           run (step v) ?s' (calls_at P (take k post) @ list_items p f ?i (drop k post)),
                           pre @ drop k post))"
      using Cons.IH [of ?s'] by blast
    have e: "v s (Some y) (p @ [(f, ?i)]) = (Sym REMOVE, ?s')"
      using rm P by (simp add: prod_eq_iff)
    have run: "visit_items n p f (pre @ y # post) ?i v s =
                Some (Inr (False,
                           run (step v) s (calls_at P (take (Suc k) (y # post))
                              @ list_items p f ?i (drop (Suc k) (y # post))),
                           pre @ drop (Suc k) (y # post)))"
      if n: "1 + lweight (y # post) \<le> n" for n
    proof -
      obtain m where m: "n = Suc m" "1 \<le> m" "1 + lweight post \<le> m"
        using n w2 by (cases n) auto
      have c: "visit_rec m (p @ [(f, ?i)]) (Some y) v s = Some (Inr (Sym REMOVE, ?s', Some y))"
        using visit_rec_symbol [where v = v and s = s and x = "Some y" and p = "p @ [(f, ?i)]"
            and y = REMOVE and ?s1.0 = ?s' and n = m] e m(2) by blast
      have step1: "visit_items (Suc m) p f (pre @ y # post) ?i v s =
                  visit_items m p f (pre @ post) ?i v ?s'"
        unfolding visit_items.simps using lt nth c pb sp by simp
      have st: "run (step v) s (calls_at P (take (Suc k) (y # post))
                  @ list_items p f ?i (drop (Suc k) (y # post))) =
                run (step v) ?s' (calls_at P (take k post) @ list_items p f ?i (drop k post))"
        by (simp add: step_def)
      show ?thesis
        unfolding m(1) step1 st using run' [rule_format, OF m(3)] by simp
    qed
    show ?thesis
      using run removes_Cons [where v = v and s = s and y = y and P = P and ys = post and k = k]
        rm k by (intro exI [of _ "Suc k"]) blast
  qed
qed

lemma loop_leaf:
  fixes v :: "'s visitor"
  assumes qu: "quiet UNIV (UNIV - {P}) v (step v)"
    and atP: "\<forall>s y. fst (v s (Some y) P) = Void \<or> fst (v s (Some y) P) = Sym REMOVE"
    and P: "P = p @ [(f, int i)]" and i: "i \<le> length xs"
  shows "\<exists>k. removes v P (run (step v) s (list_items p f 0 (take i xs))) (drop i xs) k \<and>
           (\<forall>n. 1 + lweight xs \<le> n \<longrightarrow>
              visit_items n p f xs 0 v s =
                Some (Inr (False,
                           run (step v) s (list_items p f 0 (take i xs)
                              @ calls_at P (take k (drop i xs))
                              @ list_items p f (int i) (drop (i + k) xs)),
                           take i xs @ drop (i + k) xs)))"
proof -
  define pre where "pre = take i xs"
  define post where "post = drop i xs"
  have xs: "xs = pre @ post" by (simp add: pre_def post_def)
  have lpre: "length pre = i" using i by (simp add: pre_def)
  let ?s1 = "run (step v) s (list_items p f 0 pre)"
  have Pp: "P = p @ [(f, int (length pre))]" using P lpre by simp
  obtain k where k: "removes v P ?s1 post k"
    and run: "\<forall>n. 1 + lweight post \<le> n \<longrightarrow>
              visit_items n p f (pre @ post) (int (length pre)) v ?s1 =
                Some (Inr (False,
                           run (step v) ?s1 (calls_at P (take k post)
                              @ list_items p f (int (length pre)) (drop k post)),
                           pre @ drop k post))"
    using removal_run [OF qu atP Pp, where post = post and s = ?s1] by blast
  have off: "\<forall>j. int (length ([] :: item list)) \<le> j
               \<and> j < int (length ([] :: item list)) + int (length pre)
               \<longrightarrow> below (p @ [(f, j)]) \<subseteq> UNIV - {P}"
    unfolding Pp using below_other_index [of _ "int (length pre)" p f "[]"] by auto
  have all: "visit_items n p f xs 0 v s =
                Some (Inr (False,
                           run (step v) s (list_items p f 0 pre @ calls_at P (take k post)
                              @ list_items p f (int i) (drop k post)),
                           pre @ drop k post))"
    if n: "1 + lweight xs \<le> n" for n
  proof -
    have w: "lweight xs = lweight pre + lweight post" by (simp add: xs lweight_append)
    have lp: "length pre \<le> lweight pre" by (rule lweight_ge_length)
    have F: "1 + lweight pre \<le> n" using n w by simp
    have seg: "visit_items n p f ([] @ pre @ post) (int (length ([] :: item list))) v s =
                 visit_items (n - length pre) p f ([] @ pre @ post)
                   (int (length ([] :: item list)) + int (length pre)) v
                   (run (step v) s (list_items p f (int (length ([] :: item list))) pre))"
      by (rule visit_items_quiet_segment(1) [OF qu UNIV_I off F])
    have m: "1 + lweight post \<le> n - length pre" using n w lp by simp
    show ?thesis
      using seg run [rule_format, OF m] lpre by (simp add: xs)
  qed
  have d: "drop k post = drop (i + k) xs" by (simp add: post_def add.commute)
  show ?thesis
    using k all unfolding d unfolding pre_def post_def by blast
qed

lemma loop_inner:
  fixes v :: "'s visitor"
  assumes qu: "quiet UNIV (UNIV - {P}) v g"
    and P: "P = p @ (f, int (length pre)) # R'"
    and child: "\<forall>n. weight c \<le> n \<longrightarrow>
                  visit_rec n (p @ [(f, int (length pre))]) (Some c) v
                    (run g s (list_items p f 0 pre)) = Some (Inr (Void, s2, Some c'))"
    and n: "1 + lweight (pre @ c # post) \<le> n"
  shows "visit_items n p f (pre @ c # post) 0 v s =
           Some (Inr (False, run g s2 (list_items p f (int (length pre) + 1) post),
                      pre @ c' # post))"
proof -
  let ?ys = "pre @ c # post"
  let ?j = "int (length pre)"
  let ?s1 = "run g s (list_items p f 0 pre)"
  have w: "lweight ?ys = lweight pre + weight c + lweight post"
    by (simp add: lweight_append)
  have lp: "length pre \<le> lweight pre" by (rule lweight_ge_length)
  have w2: "2 \<le> weight c" by (rule weight_ge2)
  have off: "\<forall>j. int (length ([] :: item list)) \<le> j
               \<and> j < int (length ([] :: item list)) + int (length pre)
               \<longrightarrow> below (p @ [(f, j)]) \<subseteq> UNIV - {P}"
    unfolding P using below_other_index [of _ ?j p f R'] by auto
  have F: "1 + lweight pre \<le> n" using n w by simp
  have seg: "visit_items n p f ([] @ pre @ (c # post)) (int (length ([] :: item list))) v s =
               visit_items (n - length pre) p f ([] @ pre @ (c # post))
                 (int (length ([] :: item list)) + int (length pre)) v
                 (run g s (list_items p f (int (length ([] :: item list))) pre))"
    by (rule visit_items_quiet_segment(1) [OF qu UNIV_I off F])
  obtain m where m: "n - length pre = Suc m" "weight c \<le> m" "1 + lweight post \<le> m"
    using n w lp w2 by (cases "n - length pre") auto
  have lt: "?j < int (length ?ys)" by simp
  have nth: "js_nth ?ys ?j = Some c" by (rule js_nth_mid)
  have pb: "put_back ?ys ?j (Some c') = pre @ c' # post" by (rule put_back_mid_new)
  have ch: "visit_rec m (p @ [(f, ?j)]) (Some c) v ?s1 = Some (Inr (Void, s2, Some c'))"
    using child m(2) by blast
  have step1: "visit_items (Suc m) p f ?ys ?j v ?s1 =
                visit_items m p f (pre @ c' # post) (?j + 1) v s2"
    unfolding visit_items.simps using lt nth ch pb by simp
  have r: "\<forall>j. int (length (pre @ [c'])) \<le> j \<longrightarrow> below (p @ [(f, j)]) \<subseteq> UNIV - {P}"
    unfolding P using below_other_index [of _ ?j p f R'] by auto
  have tl: "visit_items m p f ((pre @ [c']) @ post) (int (length (pre @ [c']))) v s2 =
              Some (Inr (False, run g s2 (list_items p f (int (length (pre @ [c']))) post),
                         (pre @ [c']) @ post))"
    by (rule visit_items_tail(1) [OF qu UNIV_I r m(3)])
  show ?thesis
    using seg step1 tl by (simp add: m(1) add.commute)
qed

lemma visit_rec_via_loop:
  fixes v :: "'s visitor"
  assumes qu: "quiet UNIV (UNIV - {P}) v g"
    and P: "P = p @ (f, j) # R'"
    and fld: "item_field it f = Some (Coll t' ys)"
    and loop: "\<forall>n. 1 + lweight ys \<le> n \<longrightarrow>
                 visit_items n p f ys 0 v (run g (g s it p) (items_before_field p f it)) =
                   Some (Inr (False, s3, ys'))"
    and F: "weight it \<le> F"
  shows "visit_rec F p (Some it) v s =
           Some (Inr (Void, run g s3 (items_after_field p f it),
                      Some (set_field it f (Coll t' ys'))))"
proof -
  obtain n0 where n0: "F = Suc n0" "1 + tweight (key it) \<le> n0" "1 + tweight (val it) \<le> n0"
    using F by (cases F; cases it) auto
  have pP: "p \<in> UNIV - {P}" using P by simp
  have e: "v s (Some it) p = (Void, g s it p)"
    using qu pP unfolding quiet_def by blast
  let ?s0 = "g s it p"
  have start: "visit_rec F p (Some it) v s = visit_fields n0 p [Key, Value] it Void v ?s0"
    by (simp add: n0(1) e)
  have tw: "tweight (item_field it f) = lweight ys" using fld by simp
  show ?thesis
  proof (cases f)
    case Key
    have fuel: "1 + lweight ys \<le> n0" using n0(2) tw Key by simp
    have l: "visit_items n0 p Key ys 0 v ?s0 = Some (Inr (False, s3, ys'))"
      using loop [rule_format, OF fuel] Key by (simp add: items_before_field_def)
    let ?it1 = "set_field it Key (Coll t' ys')"
    have a: "visit_fields n0 p [Key, Value] it Void v ?s0 = visit_fields n0 p [Value] ?it1 Void v s3"
      using fld Key
      by (subst visit_fields_Cons)
         (simp only: coll_items.simps option.case prod.case l sum.case if_False
            after_key.simps fst_conv snd_conv)
    have vi: "item_field ?it1 Value = val it" by (cases it) simp
    have r: "\<forall>j'. below (p @ [(Value, j')]) \<subseteq> UNIV - {P}"
      unfolding P using below_other_field [of Value f p _ j R'] Key by auto
    have b: "visit_fields n0 p [Value] ?it1 Void v s3 =
               visit_fields n0 p [] ?it1 Void v (run g s3 (token_items p Value (val it)))"
      using visit_fields_quiet(1) [OF qu UNIV_I r, where it = ?it1 and n = n0
          and ctrl = Void and fs = "[]" and s = s3] n0(3) vi by simp
    show ?thesis
      using start a b Key by (simp add: items_after_field_def)
  next
    case Value
    have fuel: "1 + lweight ys \<le> n0" using n0(3) tw Value by simp
    let ?s1 = "run g ?s0 (token_items p Key (key it))"
    have r: "\<forall>j'. below (p @ [(Key, j')]) \<subseteq> UNIV - {P}"
      unfolding P using below_other_field [of Key f p _ j R'] Value by auto
    have a: "visit_fields n0 p [Key, Value] it Void v ?s0 = visit_fields n0 p [Value] it Void v ?s1"
      using visit_fields_quiet(1) [OF qu UNIV_I r, where it = it and n = n0 and ctrl = Void
          and fs = "[Value]" and s = ?s0] n0(2) by simp
    have l: "visit_items n0 p Value ys 0 v ?s1 = Some (Inr (False, s3, ys'))"
      using loop [rule_format, OF fuel] Value by (simp add: items_before_field_def)
    let ?it1 = "set_field it Value (Coll t' ys')"
    have b: "visit_fields n0 p [Value] it Void v ?s1 = visit_fields n0 p [] ?it1 Void v s3"
      using fld Value
      by (subst visit_fields_Cons)
         (simp only: coll_items.simps option.case prod.case l sum.case if_False
            after_key.simps fst_conv snd_conv)
    show ?thesis
      using start a b Value by (simp add: items_after_field_def)
  qed
qed

lemma removal_trace_item:
  assumes tr: "removal_trace b a L1 Mb Ma L3"
    and fld: "item_field it f = Some (Coll t ys)"
    and ys: "list_items p f 0 ys = Lpre @ b @ Lpost"
    and ys': "list_items p f 0 ys' = Lpre @ a @ Lpost"
  shows "removal_trace (all_items p it) (all_items p (set_field it f (Coll t ys')))
           ((it, p) # items_before_field p f it @ Lpre @ L1) Mb Ma
           (L3 @ Lpost @ items_after_field p f it)"
proof -
  let ?X = "(it, p) # items_before_field p f it @ Lpre"
  let ?X' = "(set_field it f (Coll t ys'), p) # items_before_field p f it @ Lpre"
  let ?Y = "Lpost @ items_after_field p f it"
  have "removal_trace (?X @ b @ ?Y) (?X' @ a @ ?Y) (?X @ L1) Mb Ma (L3 @ ?Y)"
    by (rule removal_trace_extend [OF tr]) simp
  moreover have "all_items p it = ?X @ b @ ?Y"
    using all_items_field_coll [OF fld, of p] ys by simp
  moreover have "all_items p (set_field it f (Coll t ys')) = ?X' @ a @ ?Y"
    using all_items_set_field [of p it f t ys'] ys' by simp
  ultimately show ?thesis by simp
qed

lemma removal_trace_refl: "removal_trace Mb Ma [] Mb Ma []"
  by (simp add: removal_trace_def)

lemma remove_on_path:
  fixes v :: "'s visitor"
  assumes qu: "quiet UNIV (UNIV - {P}) v (step v)"
    and atP: "\<forall>s y. fst (v s (Some y) P) = Void \<or> fst (v s (Some y) P) = Sym REMOVE"
    and i: "i \<le> length xs"
    and R: "R \<noteq> []" and P: "P = p @ R" and li: "snd (last R) = int i"
    and res: "opt_field (itemAtPath_loop (Some (It it)) (butlast R)) (fst (last R))
                = Some (Coll t xs)"
  shows "\<exists>L1 L3 k it'.
           removes v P (run (step v) s L1) (drop i xs) k
         \<and> removal_trace (all_items p it) (all_items p it') L1
             (list_items (p @ butlast R) (fst (last R)) (int i) (drop i xs))
             (list_items (p @ butlast R) (fst (last R)) (int i) (drop (i + k) xs)) L3
         \<and> start it' = start it \<and> sep it' = sep it
         \<and> (\<forall>f. f \<noteq> fst (hd R) \<longrightarrow> item_field it' f = item_field it f)
         \<and> opt_field (itemAtPath_loop (Some (It it')) (butlast R)) (fst (last R))
             = Some (Coll t (take i xs @ drop (i + k) xs))
         \<and> (\<forall>F. weight it \<le> F \<longrightarrow>
               visit_rec F p (Some it) v s =
                 Some (Inr (Void,
                            run (step v) s (L1 @ calls_at P (take k (drop i xs))
                              @ list_items (p @ butlast R) (fst (last R)) (int i) (drop (i + k) xs)
                              @ L3),
                            Some it')))"
  using R P li res
proof (induction R arbitrary: p it s)
  case Nil
  then show ?case by simp
next
  case (Cons a R')
  obtain f j where a: "a = (f, j)" by (cases a)
  have P: "P = p @ (f, j) # R'" using Cons.prems(2) a by simp
  let ?g = "step v"
  let ?s0 = "run ?g (?g s it p) (items_before_field p f it)"
  show ?case
  proof (cases "R' = []")
    case True
    have j: "j = int i" using Cons.prems(3) a True by simp
    have fld: "item_field it f = Some (Coll t xs)"
      using Cons.prems(4) a True by (simp add: opt_field_def)
    have Pj: "P = p @ [(f, int i)]" using P True j by simp
    let ?Lpre = "list_items p f 0 (take i xs)"
    obtain k where k: "removes v P (run ?g ?s0 ?Lpre) (drop i xs) k"
      and loop: "\<forall>n. 1 + lweight xs \<le> n \<longrightarrow>
              visit_items n p f xs 0 v ?s0 =
                Some (Inr (False,
                           run ?g ?s0 (?Lpre @ calls_at P (take k (drop i xs))
                              @ list_items p f (int i) (drop (i + k) xs)),
                           take i xs @ drop (i + k) xs))"
      using loop_leaf [OF qu atP Pj i, where s = ?s0] by blast
    let ?ys' = "take i xs @ drop (i + k) xs"
    let ?it' = "set_field it f (Coll t ?ys')"
    let ?Mb = "list_items p f (int i) (drop i xs)"
    let ?Ma = "list_items p f (int i) (drop (i + k) xs)"
    let ?L1 = "(it, p) # items_before_field p f it @ ?Lpre @ []"
    let ?L3 = "[] @ [] @ items_after_field p f it"
    have li: "int (length (take i xs)) = int i" using i by simp
    have ys: "list_items p f 0 xs = ?Lpre @ ?Mb @ []"
      using list_items_append [of p f 0 "take i xs" "drop i xs"] li by simp
    have ys': "list_items p f 0 ?ys' = ?Lpre @ ?Ma @ []"
      using list_items_append [of p f 0 "take i xs" "drop (i + k) xs"] li by simp
    have tr: "removal_trace (all_items p it) (all_items p ?it') ?L1 ?Mb ?Ma ?L3"
      by (rule removal_trace_item [OF removal_trace_refl fld ys ys'])
    have shape: "start ?it' = start it" "sep ?it' = sep it"
      "\<forall>f'. f' \<noteq> fst (hd (a # R')) \<longrightarrow> item_field ?it' f' = item_field it f'"
      by (simp_all add: set_field_keeps item_field_set_field a del: item_field.simps)
    have res': "opt_field (itemAtPath_loop (Some (It ?it')) (butlast (a # R'))) (fst (last (a # R')))
                  = Some (Coll t ?ys')"
      using True a
      by (simp add: opt_field_def item_field_set_field del: item_field.simps)
    have run: "\<forall>F. weight it \<le> F \<longrightarrow>
               visit_rec F p (Some it) v s =
                 Some (Inr (Void, run ?g s (?L1 @ calls_at P (take k (drop i xs)) @ ?Ma @ ?L3),
                            Some ?it'))"
    proof (intro allI impI)
      fix F assume F: "weight it \<le> F"
      show "visit_rec F p (Some it) v s =
                 Some (Inr (Void, run ?g s (?L1 @ calls_at P (take k (drop i xs)) @ ?Ma @ ?L3),
                            Some ?it'))"
        using visit_rec_via_loop [OF qu P fld loop F] by simp
    qed
    have k': "removes v P (run ?g s ?L1) (drop i xs) k" using k by simp
    have Q: "p @ butlast (a # R') = p" "fst (last (a # R')) = f" using True a by simp_all
    show ?thesis
      unfolding Q using k' tr shape res' run unfolding Q by blast
  next
    case False
    have bl: "butlast (a # R') = (f, j) # butlast R'" "last (a # R') = last R'"
      using False a by simp_all
    from Cons.prems(4) obtain t' ys where fld0: "item_field it f = Some (Coll t' ys)"
      and deep: "opt_field (itemAtPath_loop (map_option It (js_nth ys j)) (butlast R'))
                   (fst (last R')) = Some (Coll t xs)"
      unfolding bl itemAtPath_loop_Cons_Some
      by (cases "item_field it f" rule: coll_items.cases) (auto simp: opt_field_def)
    have jr: "0 \<le> j \<and> j < int (length ys)"
      using deep
      by (cases "0 \<le> j \<and> j < int (length ys)")
         (auto simp: js_nth_def itemAtPath_loop_None opt_field_def)
    define m where "m = nat j"
    define pre where "pre = take m ys"
    define c where "c = ys ! m"
    define post where "post = drop (Suc m) ys"
    have m: "m < length ys" "j = int m" using jr by (auto simp: m_def)
    have ys: "ys = pre @ c # post"
      using m by (simp add: pre_def c_def post_def id_take_nth_drop)
    have lpre: "int (length pre) = j" using m by (simp add: pre_def)
    have nth: "js_nth ys j = Some c" using jr by (simp add: js_nth_def c_def m_def)
    have fld: "item_field it f = Some (Coll t' (pre @ c # post))" using fld0 ys by simp
    have Pj: "P = p @ (f, int (length pre)) # R'" using P lpre by simp
    have deep': "opt_field (itemAtPath_loop (Some (It c)) (butlast R')) (fst (last R'))
                   = Some (Coll t xs)"
      using deep nth by simp
    let ?Lpre = "list_items p f 0 pre"
    let ?Lpost = "list_items p f (j + 1) post"
    let ?s1 = "run ?g ?s0 ?Lpre"
    let ?Q = "(p @ [(f, j)]) @ butlast R'"
    let ?fl = "fst (last R')"
    have P': "P = (p @ [(f, j)]) @ R'" using P by simp
    obtain L1c L3c k c' where
      kc: "removes v P (run ?g ?s1 L1c) (drop i xs) k"
      and trc: "removal_trace (all_items (p @ [(f, j)]) c) (all_items (p @ [(f, j)]) c') L1c
             (list_items ?Q ?fl (int i) (drop i xs))
             (list_items ?Q ?fl (int i) (drop (i + k) xs)) L3c"
      and resc: "opt_field (itemAtPath_loop (Some (It c')) (butlast R')) (fst (last R'))
             = Some (Coll t (take i xs @ drop (i + k) xs))"
      and runc: "\<forall>F. weight c \<le> F \<longrightarrow>
               visit_rec F (p @ [(f, j)]) (Some c) v ?s1 =
                 Some (Inr (Void,
                            run ?g ?s1 (L1c @ calls_at P (take k (drop i xs))
                              @ list_items ?Q ?fl (int i) (drop (i + k) xs) @ L3c),
                            Some c'))"
      using Cons.IH [OF False P' _ deep', where s = ?s1] Cons.prems(3) bl(2) by auto
    let ?Ma = "list_items ?Q ?fl (int i) (drop (i + k) xs)"
    let ?Mb = "list_items ?Q ?fl (int i) (drop i xs)"
    let ?s2 = "run ?g ?s1 (L1c @ calls_at P (take k (drop i xs)) @ ?Ma @ L3c)"
    have child: "\<forall>n. weight c \<le> n \<longrightarrow>
                  visit_rec n (p @ [(f, int (length pre))]) (Some c) v (run ?g ?s0 ?Lpre) =
                    Some (Inr (Void, ?s2, Some c'))"
      using runc lpre by simp
    have loop: "\<forall>n. 1 + lweight (pre @ c # post) \<le> n \<longrightarrow>
                 visit_items n p f (pre @ c # post) 0 v ?s0 =
                   Some (Inr (False, run ?g ?s2 ?Lpost, pre @ c' # post))"
    proof (intro allI impI)
      fix n assume n: "1 + lweight (pre @ c # post) \<le> n"
      show "visit_items n p f (pre @ c # post) 0 v ?s0 =
                   Some (Inr (False, run ?g ?s2 ?Lpost, pre @ c' # post))"
        using loop_inner [OF qu Pj child n] lpre by simp
    qed
    let ?it' = "set_field it f (Coll t' (pre @ c' # post))"
    let ?L1 = "(it, p) # items_before_field p f it @ ?Lpre @ L1c"
    let ?L3 = "L3c @ ?Lpost @ items_after_field p f it"
    have l1: "list_items p f 0 (pre @ c # post) = ?Lpre @ all_items (p @ [(f, j)]) c @ ?Lpost"
      using list_items_mid [of p f pre c post] lpre by simp
    have l2: "list_items p f 0 (pre @ c' # post) = ?Lpre @ all_items (p @ [(f, j)]) c' @ ?Lpost"
      using list_items_mid [of p f pre c' post] lpre by simp
    have tr: "removal_trace (all_items p it) (all_items p ?it') ?L1 ?Mb ?Ma ?L3"
      by (rule removal_trace_item [OF trc fld l1 l2])
    have shape: "start ?it' = start it" "sep ?it' = sep it"
      "\<forall>f'. f' \<noteq> fst (hd (a # R')) \<longrightarrow> item_field ?it' f' = item_field it f'"
      by (simp_all add: set_field_keeps item_field_set_field a del: item_field.simps)
    have nth': "js_nth (pre @ c' # post) j = Some c'"
      using js_nth_mid [of pre c' post] lpre by simp
    have res': "opt_field (itemAtPath_loop (Some (It ?it')) (butlast (a # R'))) (fst (last (a # R')))
                  = Some (Coll t (take i xs @ drop (i + k) xs))"
      unfolding bl itemAtPath_loop_Cons_Some
      using resc nth' by (simp add: item_field_set_field del: item_field.simps)
    have run: "\<forall>F. weight it \<le> F \<longrightarrow>
               visit_rec F p (Some it) v s =
                 Some (Inr (Void, run ?g s (?L1 @ calls_at P (take k (drop i xs)) @ ?Ma @ ?L3),
                            Some ?it'))"
    proof (intro allI impI)
      fix F assume F: "weight it \<le> F"
      show "visit_rec F p (Some it) v s =
                 Some (Inr (Void, run ?g s (?L1 @ calls_at P (take k (drop i xs)) @ ?Ma @ ?L3),
                            Some ?it'))"
        using visit_rec_via_loop [OF qu P fld loop F] by simp
    qed
    have k': "removes v P (run ?g s ?L1) (drop i xs) k" using kc by simp
    have Q: "p @ butlast (a # R') = ?Q" "fst (last (a # R')) = ?fl" using False a by simp_all
    show ?thesis
      unfolding Q using k' tr shape res' run unfolding Q by blast
  qed
qed

lemma opt_field_root_item:
  "opt_field (Some cst) f = opt_field (Some (It (root_item cst))) f"
  by (cases cst; cases f) (simp_all add: opt_field_def root_item_def)

lemma itemAtPath_loop_root_item:
  "ps \<noteq> [] \<Longrightarrow>
   itemAtPath_loop (Some cst) ps = itemAtPath_loop (Some (It (root_item cst))) ps"
proof (cases ps)
  case (Cons a qs)
  obtain f j where "a = (f, j)" by (cases a)
  then show ?thesis
    using opt_field_root_item [of cst f] Cons by simp
qed simp

lemma parent_field_root_item:
  "opt_field (itemAtPath_loop (Some cst) ps) f =
   opt_field (itemAtPath_loop (Some (It (root_item cst))) ps) f"
proof (cases "ps = []")
  case True
  then show ?thesis using opt_field_root_item [of cst f] by simp
next
  case False
  then show ?thesis using itemAtPath_loop_root_item [of ps cst] by simp
qed

lemma parentCollection_Inr:
  "parentCollection cst P = Inr tok \<longleftrightarrow>
     P \<noteq> [] \<and> (\<exists>t xs. tok = Coll t xs
        \<and> opt_field (itemAtPath_loop (Some (It (root_item cst))) (butlast P)) (fst (last P))
            = Some (Coll t xs))"
proof (cases "P = []")
  case True
  then show ?thesis by (simp add: parentCollection_def)
next
  case False
  show ?thesis
    using False parent_field_root_item [of cst "butlast P" "fst (last P)"]
    by (cases "opt_field (itemAtPath_loop (Some (It (root_item cst))) (butlast P)) (fst (last P))"
          rule: coll_items.cases)
       (auto simp: parentCollection_def itemAtPath_def)
qed

lemma resolved_first_field:
  assumes "R \<noteq> []"
    and "opt_field (itemAtPath_loop (Some (It it)) (butlast R)) (fst (last R)) = Some tok"
  shows "item_field it (fst (hd R)) \<noteq> None"
proof (cases R)
  case Nil
  then show ?thesis using assms by simp
next
  case (Cons a R')
  obtain f j where a: "a = (f, j)" by (cases a)
  show ?thesis
  proof (cases "R' = []")
    case True
    then show ?thesis using assms(2) Cons a by (auto simp: opt_field_def)
  next
    case False
    then have "butlast R = (f, j) # butlast R'" using Cons a by simp
    then show ?thesis
      using assms(2) Cons a
      by (cases "item_field it f" rule: coll_items.cases) (auto simp: opt_field_def)
  qed
qed

lemma root_item_root_update:
  assumes "start it' = start (root_item cst)" "sep it' = sep (root_item cst)"
    and "key (root_item cst) = None \<longrightarrow> key it' = None"
  shows "root_item (root_update cst (Some it')) = it'"
  using assms by (cases cst; cases it') (simp_all add: root_item_def root_update_def)


lemma run_closed:
  fixes v :: "'s visitor"
  assumes closed: "\<forall>s\<in>A. \<forall>y q. q \<noteq> P \<longrightarrow> snd (v s (Some y) q) \<in> A"
  shows "s \<in> A \<Longrightarrow> P \<notin> snd ` set L \<Longrightarrow> run (step v) s L \<in> A"
proof (induction L arbitrary: s)
  case (Cons c L)
  obtain y q where c: "c = (y, q)" by (cases c)
  have "q \<noteq> P" using Cons.prems(2) c by auto
  then have "step v s y q \<in> A" using closed Cons.prems(1) by (auto simp: step_def)
  then show ?case using Cons.IH [of "step v s y q"] Cons.prems(2) c by simp
qed simp

lemma list_items_hd:
  "ys = y # zs \<Longrightarrow> P = p @ [(f, j)] \<Longrightarrow> \<exists>T. list_items p f j ys = (y, P) # T"
  by (simp add: all_items_unfold [of "p @ [(f, j)]" y])

lemma removes_first:
  assumes "removes v P s ys k" and "ys \<noteq> []" and "fst (v s (Some (ys ! 0)) P) = Sym REMOVE"
  shows "\<exists>k'. k = Suc k'"
  using assms by (cases k) (auto simp: removes_def)

text \<open>C2: let the item at \<open>P\<close> be the \<open>i\<close>-th of its parent collection's items \<open>xs\<close> and
  have a next sibling. The visitor returns \<^verbatim>\<open>undefined\<close> at every path other than \<open>P\<close>,
  and \<^verbatim>\<open>REMOVE\<close> or \<^verbatim>\<open>undefined\<close> at \<open>P\<close>; it returns \<^verbatim>\<open>REMOVE\<close> for the item
  \<open>xs ! i\<close> at \<open>P\<close> in every state of \<open>A\<close>, a set that holds the initial state and that
  the calls away from \<open>P\<close> do not leave (all states, for a visitor that is a function of
  the item and the path). Then, with enough fuel, the walk returns. It has called the
  visitor on the items ahead of the removed one (\<open>L1\<close>); then at \<open>P\<close> on \<open>xs ! i\<close> and on
  the \<open>k\<close> items after it to which the visitor answered \<^verbatim>\<open>REMOVE\<close> in turn, each moved
  to \<open>P\<close> by the removal before it; then on the remaining items of the list, the first of
  them at \<open>P\<close>, and on what lies below them; then on the rest of the tree (\<open>L3\<close>). Afterwards
  the parent collection's list is \<open>xs\<close> without the items \<open>i\<close> to \<open>i + k\<close>. The second call at
  \<open>P\<close> is on the next sibling \<open>xs ! Suc i\<close>, which is thus neither skipped nor visited twice:
  every item is called at most once, in the order of the tree, and no call outside those
  listed is at \<open>P\<close>. A visitor that returns \<^verbatim>\<open>undefined\<close> for the sibling has \<open>k = 0\<close>, and
  only \<open>xs ! i\<close> is removed; one that returns \<^verbatim>\<open>REMOVE\<close> whenever it is called at \<open>P\<close>
  removes every item from \<open>i\<close> on.\<close>

theorem remove_then_next_sibling:
  fixes v :: "'s visitor"
  assumes parent: "parentCollection cst P = Inr (Coll t xs)"
    and idx: "snd (last P) = int i" "Suc i < length xs"
    and off: "\<forall>s y q. q \<noteq> P \<longrightarrow> fst (v s (Some y) q) = Void"
    and atP: "\<forall>s y. fst (v s (Some y) P) = Void \<or> fst (v s (Some y) P) = Sym REMOVE"
    and first: "\<forall>s\<in>A. fst (v s (Some (xs ! i)) P) = Sym REMOVE"
    and closed: "\<forall>s\<in>A. \<forall>y q. q \<noteq> P \<longrightarrow> snd (v s (Some y) q) \<in> A"
    and s: "s \<in> A"
    and fuel: "weight (root_item cst) \<le> fuel"
  shows "\<exists>L1 L3 k cst'.
           visit fuel cst v s =
             Some (Inr (run (step v) s
                          (L1 @ calls_at P (take (Suc k) (drop i xs))
                            @ list_items (butlast P) (fst (last P)) (int i) (drop (Suc (i + k)) xs)
                            @ L3),
                        cst'))
         \<and> parentCollection cst' P = Inr (Coll t (take i xs @ drop (Suc (i + k)) xs))
         \<and> Suc (i + k) \<le> length xs
         \<and> (\<forall>j\<le>k. fst (v (run (step v) s (L1 @ calls_at P (take j (drop i xs))))
                          (Some (xs ! (i + j))) P) = Sym REMOVE)
         \<and> (Suc (i + k) < length xs \<longrightarrow>
               fst (v (run (step v) s (L1 @ calls_at P (take (Suc k) (drop i xs))))
                      (Some (xs ! Suc (i + k))) P) = Void)
         \<and> all_items [] (root_item cst) =
               L1 @ list_items (butlast P) (fst (last P)) (int i) (drop i xs) @ L3
         \<and> map snd (all_items [] (root_item cst')) =
               map snd L1
               @ map snd (list_items (butlast P) (fst (last P)) (int i) (drop (Suc (i + k)) xs))
               @ map snd L3
         \<and> take 2 (calls_at P (take (Suc k) (drop i xs))
                     @ list_items (butlast P) (fst (last P)) (int i) (drop (Suc (i + k)) xs))
               = [(xs ! i, P), (xs ! Suc i, P)]
         \<and> P \<notin> snd ` set L1
         \<and> P \<notin> snd ` set (tl (list_items (butlast P) (fst (last P)) (int i)
                                   (drop (Suc (i + k)) xs)))
         \<and> P \<notin> snd ` set L3"
proof -
  let ?it = "root_item cst"
  let ?Q = "butlast P"
  let ?f = "fst (last P)"
  let ?g = "step v"
  have P: "P \<noteq> []"
    and res: "opt_field (itemAtPath_loop (Some (It ?it)) (butlast P)) (fst (last P))
                = Some (Coll t xs)"
    using parent unfolding parentCollection_Inr by auto
  have "last P = (?f, int i)" using idx(1) by (simp add: prod_eq_iff)
  then have Pl: "P = ?Q @ [(?f, int i)]"
    using append_butlast_last_id [OF P] by simp
  have qu: "quiet UNIV (UNIV - {P}) v ?g" by (rule quiet_step [OF off])
  have i: "i \<le> length xs" using idx(2) by simp
  have P0: "P = [] @ P" by simp
  obtain L1 L3 K it' where
      K: "removes v P (run ?g s L1) (drop i xs) K"
    and tr: "removal_trace (all_items [] ?it) (all_items [] it') L1
             (list_items ([] @ ?Q) ?f (int i) (drop i xs))
             (list_items ([] @ ?Q) ?f (int i) (drop (i + K) xs)) L3"
    and sh: "start it' = start ?it" "sep it' = sep ?it"
      "\<forall>f. f \<noteq> fst (hd P) \<longrightarrow> item_field it' f = item_field ?it f"
    and res': "opt_field (itemAtPath_loop (Some (It it')) (butlast P)) (fst (last P))
             = Some (Coll t (take i xs @ drop (i + K) xs))"
    and run: "\<forall>F. weight ?it \<le> F \<longrightarrow>
               visit_rec F [] (Some ?it) v s =
                 Some (Inr (Void,
                            run ?g s (L1 @ calls_at P (take K (drop i xs))
                              @ list_items ([] @ ?Q) ?f (int i) (drop (i + K) xs) @ L3),
                            Some it'))"
    using remove_on_path [OF qu atP i P P0 idx(1) res, where s = s] by blast
  let ?Mb = "list_items ?Q ?f (int i) (drop i xs)"
  have dr: "drop i xs = xs ! i # xs ! Suc i # drop (Suc (Suc i)) xs"
    using idx(2) by (simp add: Cons_nth_drop_Suc)
  have before: "all_items [] ?it = L1 @ ?Mb @ L3"
    using tr by (simp add: removal_trace_def)
  obtain Tb where hdMb: "?Mb = (xs ! i, P) # Tb"
    using list_items_hd [OF dr Pl] by blast
  have d0: "distinct (map snd L1 @ map snd ?Mb @ map snd L3)"
    using paths_distinct(1) [of "[]" ?it] before by simp
  have n1: "P \<notin> snd ` set L1" and n3: "P \<notin> snd ` set L3"
    using d0 unfolding hdMb by auto
  have inA: "run ?g s L1 \<in> A" by (rule run_closed [OF closed s n1])
  have fr: "fst (v (run ?g s L1) (Some (drop i xs ! 0)) P) = Sym REMOVE"
    using first inA dr by simp
  obtain k where k: "K = Suc k"
    using removes_first [OF K _ fr] dr by auto
  let ?Ma = "list_items ?Q ?f (int i) (drop (Suc (i + k)) xs)"
  let ?cst' = "root_update cst (Some it')"
  have ky: "key ?it = None \<longrightarrow> key it' = None"
  proof
    assume "key ?it = None"
    then have "fst (hd P) \<noteq> Key" using resolved_first_field [OF P res] by auto
    then have "item_field it' Key = item_field ?it Key"
      using sh(3) [rule_format, of Key] by simp
    then show "key it' = None" using \<open>key ?it = None\<close> by simp
  qed
  have ri: "root_item ?cst' = it'" by (rule root_item_root_update [OF sh(1,2) ky])
  have c1: "visit fuel cst v s =
             Some (Inr (run ?g s (L1 @ calls_at P (take (Suc k) (drop i xs)) @ ?Ma @ L3), ?cst'))"
    using run [rule_format, OF fuel] k by (simp add: visit_def)
  have c2: "parentCollection ?cst' P = Inr (Coll t (take i xs @ drop (Suc (i + k)) xs))"
    unfolding parentCollection_Inr ri using P res' k by simp
  have "K \<le> length (drop i xs)" using K unfolding removes_def by blast
  then have c3: "Suc (i + k) \<le> length xs"
    using k i by simp
  have c4: "\<forall>j\<le>k. fst (v (run ?g s (L1 @ calls_at P (take j (drop i xs))))
                          (Some (xs ! (i + j))) P) = Sym REMOVE"
  proof (intro allI impI)
    fix j assume j: "j \<le> k"
    then have "j < K" using k by simp
    then have "fst (v (run ?g (run ?g s L1) (calls_at P (take j (drop i xs))))
                 (Some (drop i xs ! j)) P) = Sym REMOVE"
      using K unfolding removes_def by blast
    moreover have "drop i xs ! j = xs ! (i + j)" using c3 j by simp
    ultimately show "fst (v (run ?g s (L1 @ calls_at P (take j (drop i xs))))
                          (Some (xs ! (i + j))) P) = Sym REMOVE" by simp
  qed
  have c5: "Suc (i + k) < length xs \<longrightarrow>
               fst (v (run ?g s (L1 @ calls_at P (take (Suc k) (drop i xs))))
                      (Some (xs ! Suc (i + k))) P) = Void"
  proof
    assume a: "Suc (i + k) < length xs"
    then have "K < length (drop i xs)" using k by simp
    then have "fst (v (run ?g (run ?g s L1) (calls_at P (take K (drop i xs))))
                 (Some (drop i xs ! K)) P) = Void"
      using K unfolding removes_def by blast
    moreover have "drop i xs ! K = xs ! Suc (i + k)" using a k by simp
    ultimately show "fst (v (run ?g s (L1 @ calls_at P (take (Suc k) (drop i xs))))
                      (Some (xs ! Suc (i + k))) P) = Void" using k by simp
  qed
  have c7: "map snd (all_items [] (root_item ?cst')) = map snd L1 @ map snd ?Ma @ map snd L3"
    unfolding ri using tr k by (simp add: removal_trace_def)
  have c8: "take 2 (calls_at P (take (Suc k) (drop i xs)) @ ?Ma) = [(xs ! i, P), (xs ! Suc i, P)]"
  proof (cases k)
    case 0
    have e: "drop (Suc (i + k)) xs = xs ! Suc i # drop (Suc (Suc i)) xs"
      using idx(2) 0 by (simp add: Cons_nth_drop_Suc)
    obtain T where T: "?Ma = (xs ! Suc i, P) # T"
      using list_items_hd [OF e Pl] by blast
    have "calls_at P (take (Suc k) (drop i xs)) = [(xs ! i, P)]"
      using 0 dr by simp
    then show ?thesis unfolding T by simp
  next
    case (Suc k')
    show ?thesis unfolding Suc dr by simp
  qed
  have c10: "P \<notin> snd ` set (tl ?Ma)"
  proof (cases "drop (Suc (i + k)) xs")
    case Nil
    then show ?thesis by simp
  next
    case (Cons y ys)
    obtain T where h: "?Ma = (y, P) # T"
      using list_items_hd [OF Cons Pl] by blast
    have "distinct (map snd ?Ma)" by (rule paths_distinct(3))
    then show ?thesis unfolding h by auto
  qed
  show ?thesis
    by (intro exI [of _ L1] exI [of _ L3] exI [of _ k] exI [of _ ?cst'] conjI)
       (rule c1 c2 c3 c4 c5 before c7 c8 n1 c10 n3)+
qed

theorem remove_then_next_sibling_witness:
  "parentCollection three_doc [(Value, 0)] = Inr (Coll ''block-map'' three_items)
   \<and> visit 30 three_doc (remove_at_path [(Value, 0)]) [] =
       Some (Inr ([[], [(Value, 0)], [(Value, 0)], [(Value, 0)]], Doc (Document 0 [] (Some (Coll ''block-map'' [])) None)))
   \<and> (\<exists>L1 L3 k cst'.
         visit 30 three_doc (remove_at_path [(Value, 0)]) [] =
           Some (Inr (run (step (remove_at_path [(Value, 0)])) []
                        (L1 @ calls_at [(Value, 0)] (take (Suc k) (drop 0 three_items))
                          @ list_items (butlast [(Value, 0)]) (fst (last [(Value, 0 :: int)])) (int 0)
                              (drop (Suc (0 + k)) three_items)
                          @ L3),
                      cst'))
       \<and> parentCollection cst' [(Value, 0)] =
           Inr (Coll ''block-map'' (take 0 three_items @ drop (Suc (0 + k)) three_items))
       \<and> Suc (0 + k) \<le> length three_items
       \<and> (\<forall>j\<le>k. fst ((remove_at_path [(Value, 0)]) (run (step (remove_at_path [(Value, 0)])) []
                                (L1 @ calls_at [(Value, 0)] (take j (drop 0 three_items))))
                        (Some (three_items ! (0 + j))) [(Value, 0)]) = Sym REMOVE)
       \<and> (Suc (0 + k) < length three_items \<longrightarrow>
             fst ((remove_at_path [(Value, 0)]) (run (step (remove_at_path [(Value, 0)])) []
                         (L1 @ calls_at [(Value, 0)] (take (Suc k) (drop 0 three_items))))
                    (Some (three_items ! Suc (0 + k))) [(Value, 0)]) = Void)
       \<and> all_items [] (root_item three_doc) =
             L1 @ list_items (butlast [(Value, 0)]) (fst (last [(Value, 0 :: int)])) (int 0)
                    (drop 0 three_items) @ L3
       \<and> map snd (all_items [] (root_item cst')) =
             map snd L1
             @ map snd (list_items (butlast [(Value, 0)]) (fst (last [(Value, 0 :: int)])) (int 0)
                          (drop (Suc (0 + k)) three_items))
             @ map snd L3
       \<and> take 2 (calls_at [(Value, 0)] (take (Suc k) (drop 0 three_items))
                   @ list_items (butlast [(Value, 0)]) (fst (last [(Value, 0 :: int)])) (int 0)
                       (drop (Suc (0 + k)) three_items))
             = [(three_items ! 0, [(Value, 0)]), (three_items ! Suc 0, [(Value, 0)])]
       \<and> [(Value, 0)] \<notin> snd ` set L1
       \<and> [(Value, 0)] \<notin> snd ` set (tl (list_items (butlast [(Value, 0)])
                                            (fst (last [(Value, 0 :: int)])) (int 0)
                                            (drop (Suc (0 + k)) three_items)))
       \<and> [(Value, 0)] \<notin> snd ` set L3)
   \<and> visit 30 three_doc (remove_item_at (three_items ! 0) [(Value, 0)]) [] =
       Some (Inr ([[], [(Value, 0)], [(Value, 0)], [(Value, 1)]], Doc (Document 0 [] (Some (Coll ''block-map'' (drop 1 three_items))) None)))
   \<and> (\<exists>L1 L3 k cst'.
         visit 30 three_doc (remove_item_at (three_items ! 0) [(Value, 0)]) [] =
           Some (Inr (run (step (remove_item_at (three_items ! 0) [(Value, 0)])) []
                        (L1 @ calls_at [(Value, 0)] (take (Suc k) (drop 0 three_items))
                          @ list_items (butlast [(Value, 0)]) (fst (last [(Value, 0 :: int)])) (int 0)
                              (drop (Suc (0 + k)) three_items)
                          @ L3),
                      cst'))
       \<and> parentCollection cst' [(Value, 0)] =
           Inr (Coll ''block-map'' (take 0 three_items @ drop (Suc (0 + k)) three_items))
       \<and> Suc (0 + k) \<le> length three_items
       \<and> (\<forall>j\<le>k. fst ((remove_item_at (three_items ! 0) [(Value, 0)]) (run (step (remove_item_at (three_items ! 0) [(Value, 0)])) []
                                (L1 @ calls_at [(Value, 0)] (take j (drop 0 three_items))))
                        (Some (three_items ! (0 + j))) [(Value, 0)]) = Sym REMOVE)
       \<and> (Suc (0 + k) < length three_items \<longrightarrow>
             fst ((remove_item_at (three_items ! 0) [(Value, 0)]) (run (step (remove_item_at (three_items ! 0) [(Value, 0)])) []
                         (L1 @ calls_at [(Value, 0)] (take (Suc k) (drop 0 three_items))))
                    (Some (three_items ! Suc (0 + k))) [(Value, 0)]) = Void)
       \<and> all_items [] (root_item three_doc) =
             L1 @ list_items (butlast [(Value, 0)]) (fst (last [(Value, 0 :: int)])) (int 0)
                    (drop 0 three_items) @ L3
       \<and> map snd (all_items [] (root_item cst')) =
             map snd L1
             @ map snd (list_items (butlast [(Value, 0)]) (fst (last [(Value, 0 :: int)])) (int 0)
                          (drop (Suc (0 + k)) three_items))
             @ map snd L3
       \<and> take 2 (calls_at [(Value, 0)] (take (Suc k) (drop 0 three_items))
                   @ list_items (butlast [(Value, 0)]) (fst (last [(Value, 0 :: int)])) (int 0)
                       (drop (Suc (0 + k)) three_items))
             = [(three_items ! 0, [(Value, 0)]), (three_items ! Suc 0, [(Value, 0)])]
       \<and> [(Value, 0)] \<notin> snd ` set L1
       \<and> [(Value, 0)] \<notin> snd ` set (tl (list_items (butlast [(Value, 0)])
                                            (fst (last [(Value, 0 :: int)])) (int 0)
                                            (drop (Suc (0 + k)) three_items)))
       \<and> [(Value, 0)] \<notin> snd ` set L3)
   \<and> visit 30 three_doc (remove_once [(Value, 0)]) (False, []) =
       Some (Inr ((True, [[], [(Value, 0)], [(Value, 0)], [(Value, 1)]]), Doc (Document 0 [] (Some (Coll ''block-map'' (drop 1 three_items))) None)))
   \<and> (\<exists>L1 L3 k cst'.
         visit 30 three_doc (remove_once [(Value, 0)]) (False, []) =
           Some (Inr (run (step (remove_once [(Value, 0)])) (False, [])
                        (L1 @ calls_at [(Value, 0)] (take (Suc k) (drop 0 three_items))
                          @ list_items (butlast [(Value, 0)]) (fst (last [(Value, 0 :: int)])) (int 0)
                              (drop (Suc (0 + k)) three_items)
                          @ L3),
                      cst'))
       \<and> parentCollection cst' [(Value, 0)] =
           Inr (Coll ''block-map'' (take 0 three_items @ drop (Suc (0 + k)) three_items))
       \<and> Suc (0 + k) \<le> length three_items
       \<and> (\<forall>j\<le>k. fst ((remove_once [(Value, 0)]) (run (step (remove_once [(Value, 0)])) (False, [])
                                (L1 @ calls_at [(Value, 0)] (take j (drop 0 three_items))))
                        (Some (three_items ! (0 + j))) [(Value, 0)]) = Sym REMOVE)
       \<and> (Suc (0 + k) < length three_items \<longrightarrow>
             fst ((remove_once [(Value, 0)]) (run (step (remove_once [(Value, 0)])) (False, [])
                         (L1 @ calls_at [(Value, 0)] (take (Suc k) (drop 0 three_items))))
                    (Some (three_items ! Suc (0 + k))) [(Value, 0)]) = Void)
       \<and> all_items [] (root_item three_doc) =
             L1 @ list_items (butlast [(Value, 0)]) (fst (last [(Value, 0 :: int)])) (int 0)
                    (drop 0 three_items) @ L3
       \<and> map snd (all_items [] (root_item cst')) =
             map snd L1
             @ map snd (list_items (butlast [(Value, 0)]) (fst (last [(Value, 0 :: int)])) (int 0)
                          (drop (Suc (0 + k)) three_items))
             @ map snd L3
       \<and> take 2 (calls_at [(Value, 0)] (take (Suc k) (drop 0 three_items))
                   @ list_items (butlast [(Value, 0)]) (fst (last [(Value, 0 :: int)])) (int 0)
                       (drop (Suc (0 + k)) three_items))
             = [(three_items ! 0, [(Value, 0)]), (three_items ! Suc 0, [(Value, 0)])]
       \<and> [(Value, 0)] \<notin> snd ` set L1
       \<and> [(Value, 0)] \<notin> snd ` set (tl (list_items (butlast [(Value, 0)])
                                            (fst (last [(Value, 0 :: int)])) (int 0)
                                            (drop (Suc (0 + k)) three_items)))
       \<and> [(Value, 0)] \<notin> snd ` set L3)"
proof -
  let ?P = "[(Value, 0 :: int)]"
  have p: "parentCollection three_doc ?P = Inr (Coll ''block-map'' three_items)"
    by (simp add: three_doc_def parentCollection_def itemAtPath_def opt_field_def)
  have i: "snd (last ?P) = int 0" "Suc 0 < length three_items"
    by (simp_all add: three_items_def sample_items_def)
  have w: "weight (root_item three_doc) \<le> 30"
    by (simp add: three_doc_def root_item_def three_items_def sample_items_def)
  have e1: "visit 30 three_doc (remove_at_path [(Value, 0)]) [] =
       Some (Inr ([[], [(Value, 0)], [(Value, 0)], [(Value, 0)]], Doc (Document 0 [] (Some (Coll ''block-map'' [])) None)))"
    by (simp add: visit_def three_doc_def root_item_def root_update_def eval_nat_numeral remove_at_path_def
          three_items_def sample_items_def js_nth_def put_back_def js_splice1_def)
  have off1: "\<forall>s y q. q \<noteq> ?P \<longrightarrow> fst ((remove_at_path [(Value, 0)]) s (Some y) q) = Void"
    by (simp add: remove_at_path_def)
  have atP1: "\<forall>s y. fst ((remove_at_path [(Value, 0)]) s (Some y) ?P) = Void \<or> fst ((remove_at_path [(Value, 0)]) s (Some y) ?P) = Sym REMOVE"
    by (simp add: remove_at_path_def)
  have first1: "\<forall>s\<in>(UNIV :: path list set). fst ((remove_at_path [(Value, 0)]) s (Some (three_items ! 0)) ?P) = Sym REMOVE"
    by (simp add: remove_at_path_def)
  have closed1: "\<forall>s\<in>(UNIV :: path list set). \<forall>y q. q \<noteq> ?P \<longrightarrow> snd ((remove_at_path [(Value, 0)]) s (Some y) q) \<in> (UNIV :: path list set)"
    by (simp add: remove_at_path_def)
  have s1: "[] \<in> (UNIV :: path list set)" by simp
  have b1: "(\<exists>L1 L3 k cst'.
         visit 30 three_doc (remove_at_path [(Value, 0)]) [] =
           Some (Inr (run (step (remove_at_path [(Value, 0)])) []
                        (L1 @ calls_at [(Value, 0)] (take (Suc k) (drop 0 three_items))
                          @ list_items (butlast [(Value, 0)]) (fst (last [(Value, 0 :: int)])) (int 0)
                              (drop (Suc (0 + k)) three_items)
                          @ L3),
                      cst'))
       \<and> parentCollection cst' [(Value, 0)] =
           Inr (Coll ''block-map'' (take 0 three_items @ drop (Suc (0 + k)) three_items))
       \<and> Suc (0 + k) \<le> length three_items
       \<and> (\<forall>j\<le>k. fst ((remove_at_path [(Value, 0)]) (run (step (remove_at_path [(Value, 0)])) []
                                (L1 @ calls_at [(Value, 0)] (take j (drop 0 three_items))))
                        (Some (three_items ! (0 + j))) [(Value, 0)]) = Sym REMOVE)
       \<and> (Suc (0 + k) < length three_items \<longrightarrow>
             fst ((remove_at_path [(Value, 0)]) (run (step (remove_at_path [(Value, 0)])) []
                         (L1 @ calls_at [(Value, 0)] (take (Suc k) (drop 0 three_items))))
                    (Some (three_items ! Suc (0 + k))) [(Value, 0)]) = Void)
       \<and> all_items [] (root_item three_doc) =
             L1 @ list_items (butlast [(Value, 0)]) (fst (last [(Value, 0 :: int)])) (int 0)
                    (drop 0 three_items) @ L3
       \<and> map snd (all_items [] (root_item cst')) =
             map snd L1
             @ map snd (list_items (butlast [(Value, 0)]) (fst (last [(Value, 0 :: int)])) (int 0)
                          (drop (Suc (0 + k)) three_items))
             @ map snd L3
       \<and> take 2 (calls_at [(Value, 0)] (take (Suc k) (drop 0 three_items))
                   @ list_items (butlast [(Value, 0)]) (fst (last [(Value, 0 :: int)])) (int 0)
                       (drop (Suc (0 + k)) three_items))
             = [(three_items ! 0, [(Value, 0)]), (three_items ! Suc 0, [(Value, 0)])]
       \<and> [(Value, 0)] \<notin> snd ` set L1
       \<and> [(Value, 0)] \<notin> snd ` set (tl (list_items (butlast [(Value, 0)])
                                            (fst (last [(Value, 0 :: int)])) (int 0)
                                            (drop (Suc (0 + k)) three_items)))
       \<and> [(Value, 0)] \<notin> snd ` set L3)"
    by (rule remove_then_next_sibling [OF p i off1 atP1 first1 closed1 s1 w])
  have e2: "visit 30 three_doc (remove_item_at (three_items ! 0) [(Value, 0)]) [] =
       Some (Inr ([[], [(Value, 0)], [(Value, 0)], [(Value, 1)]], Doc (Document 0 [] (Some (Coll ''block-map'' (drop 1 three_items))) None)))"
    by (simp add: visit_def three_doc_def root_item_def root_update_def eval_nat_numeral remove_item_at_def
          three_items_def sample_items_def js_nth_def put_back_def js_splice1_def)
  have off2: "\<forall>s y q. q \<noteq> ?P \<longrightarrow> fst ((remove_item_at (three_items ! 0) [(Value, 0)]) s (Some y) q) = Void"
    by (simp add: remove_item_at_def)
  have atP2: "\<forall>s y. fst ((remove_item_at (three_items ! 0) [(Value, 0)]) s (Some y) ?P) = Void \<or> fst ((remove_item_at (three_items ! 0) [(Value, 0)]) s (Some y) ?P) = Sym REMOVE"
    by (simp add: remove_item_at_def)
  have first2: "\<forall>s\<in>(UNIV :: path list set). fst ((remove_item_at (three_items ! 0) [(Value, 0)]) s (Some (three_items ! 0)) ?P) = Sym REMOVE"
    by (simp add: remove_item_at_def)
  have closed2: "\<forall>s\<in>(UNIV :: path list set). \<forall>y q. q \<noteq> ?P \<longrightarrow> snd ((remove_item_at (three_items ! 0) [(Value, 0)]) s (Some y) q) \<in> (UNIV :: path list set)"
    by (simp add: remove_item_at_def)
  have s2: "[] \<in> (UNIV :: path list set)" by simp
  have b2: "(\<exists>L1 L3 k cst'.
         visit 30 three_doc (remove_item_at (three_items ! 0) [(Value, 0)]) [] =
           Some (Inr (run (step (remove_item_at (three_items ! 0) [(Value, 0)])) []
                        (L1 @ calls_at [(Value, 0)] (take (Suc k) (drop 0 three_items))
                          @ list_items (butlast [(Value, 0)]) (fst (last [(Value, 0 :: int)])) (int 0)
                              (drop (Suc (0 + k)) three_items)
                          @ L3),
                      cst'))
       \<and> parentCollection cst' [(Value, 0)] =
           Inr (Coll ''block-map'' (take 0 three_items @ drop (Suc (0 + k)) three_items))
       \<and> Suc (0 + k) \<le> length three_items
       \<and> (\<forall>j\<le>k. fst ((remove_item_at (three_items ! 0) [(Value, 0)]) (run (step (remove_item_at (three_items ! 0) [(Value, 0)])) []
                                (L1 @ calls_at [(Value, 0)] (take j (drop 0 three_items))))
                        (Some (three_items ! (0 + j))) [(Value, 0)]) = Sym REMOVE)
       \<and> (Suc (0 + k) < length three_items \<longrightarrow>
             fst ((remove_item_at (three_items ! 0) [(Value, 0)]) (run (step (remove_item_at (three_items ! 0) [(Value, 0)])) []
                         (L1 @ calls_at [(Value, 0)] (take (Suc k) (drop 0 three_items))))
                    (Some (three_items ! Suc (0 + k))) [(Value, 0)]) = Void)
       \<and> all_items [] (root_item three_doc) =
             L1 @ list_items (butlast [(Value, 0)]) (fst (last [(Value, 0 :: int)])) (int 0)
                    (drop 0 three_items) @ L3
       \<and> map snd (all_items [] (root_item cst')) =
             map snd L1
             @ map snd (list_items (butlast [(Value, 0)]) (fst (last [(Value, 0 :: int)])) (int 0)
                          (drop (Suc (0 + k)) three_items))
             @ map snd L3
       \<and> take 2 (calls_at [(Value, 0)] (take (Suc k) (drop 0 three_items))
                   @ list_items (butlast [(Value, 0)]) (fst (last [(Value, 0 :: int)])) (int 0)
                       (drop (Suc (0 + k)) three_items))
             = [(three_items ! 0, [(Value, 0)]), (three_items ! Suc 0, [(Value, 0)])]
       \<and> [(Value, 0)] \<notin> snd ` set L1
       \<and> [(Value, 0)] \<notin> snd ` set (tl (list_items (butlast [(Value, 0)])
                                            (fst (last [(Value, 0 :: int)])) (int 0)
                                            (drop (Suc (0 + k)) three_items)))
       \<and> [(Value, 0)] \<notin> snd ` set L3)"
    by (rule remove_then_next_sibling [OF p i off2 atP2 first2 closed2 s2 w])
  have e3: "visit 30 three_doc (remove_once [(Value, 0)]) (False, []) =
       Some (Inr ((True, [[], [(Value, 0)], [(Value, 0)], [(Value, 1)]]), Doc (Document 0 [] (Some (Coll ''block-map'' (drop 1 three_items))) None)))"
    by (simp add: visit_def three_doc_def root_item_def root_update_def eval_nat_numeral remove_once_def
          three_items_def sample_items_def js_nth_def put_back_def js_splice1_def)
  have off3: "\<forall>s y q. q \<noteq> ?P \<longrightarrow> fst ((remove_once [(Value, 0)]) s (Some y) q) = Void"
    by (simp add: remove_once_def)
  have atP3: "\<forall>s y. fst ((remove_once [(Value, 0)]) s (Some y) ?P) = Void \<or> fst ((remove_once [(Value, 0)]) s (Some y) ?P) = Sym REMOVE"
    by (simp add: remove_once_def)
  have first3: "\<forall>s\<in>({s :: bool \<times> path list. \<not> fst s}). fst ((remove_once [(Value, 0)]) s (Some (three_items ! 0)) ?P) = Sym REMOVE"
    by (simp add: remove_once_def)
  have closed3: "\<forall>s\<in>({s :: bool \<times> path list. \<not> fst s}). \<forall>y q. q \<noteq> ?P \<longrightarrow> snd ((remove_once [(Value, 0)]) s (Some y) q) \<in> ({s :: bool \<times> path list. \<not> fst s})"
    by (simp add: remove_once_def)
  have s3: "(False, []) \<in> ({s :: bool \<times> path list. \<not> fst s})" by simp
  have b3: "(\<exists>L1 L3 k cst'.
         visit 30 three_doc (remove_once [(Value, 0)]) (False, []) =
           Some (Inr (run (step (remove_once [(Value, 0)])) (False, [])
                        (L1 @ calls_at [(Value, 0)] (take (Suc k) (drop 0 three_items))
                          @ list_items (butlast [(Value, 0)]) (fst (last [(Value, 0 :: int)])) (int 0)
                              (drop (Suc (0 + k)) three_items)
                          @ L3),
                      cst'))
       \<and> parentCollection cst' [(Value, 0)] =
           Inr (Coll ''block-map'' (take 0 three_items @ drop (Suc (0 + k)) three_items))
       \<and> Suc (0 + k) \<le> length three_items
       \<and> (\<forall>j\<le>k. fst ((remove_once [(Value, 0)]) (run (step (remove_once [(Value, 0)])) (False, [])
                                (L1 @ calls_at [(Value, 0)] (take j (drop 0 three_items))))
                        (Some (three_items ! (0 + j))) [(Value, 0)]) = Sym REMOVE)
       \<and> (Suc (0 + k) < length three_items \<longrightarrow>
             fst ((remove_once [(Value, 0)]) (run (step (remove_once [(Value, 0)])) (False, [])
                         (L1 @ calls_at [(Value, 0)] (take (Suc k) (drop 0 three_items))))
                    (Some (three_items ! Suc (0 + k))) [(Value, 0)]) = Void)
       \<and> all_items [] (root_item three_doc) =
             L1 @ list_items (butlast [(Value, 0)]) (fst (last [(Value, 0 :: int)])) (int 0)
                    (drop 0 three_items) @ L3
       \<and> map snd (all_items [] (root_item cst')) =
             map snd L1
             @ map snd (list_items (butlast [(Value, 0)]) (fst (last [(Value, 0 :: int)])) (int 0)
                          (drop (Suc (0 + k)) three_items))
             @ map snd L3
       \<and> take 2 (calls_at [(Value, 0)] (take (Suc k) (drop 0 three_items))
                   @ list_items (butlast [(Value, 0)]) (fst (last [(Value, 0 :: int)])) (int 0)
                       (drop (Suc (0 + k)) three_items))
             = [(three_items ! 0, [(Value, 0)]), (three_items ! Suc 0, [(Value, 0)])]
       \<and> [(Value, 0)] \<notin> snd ` set L1
       \<and> [(Value, 0)] \<notin> snd ` set (tl (list_items (butlast [(Value, 0)])
                                            (fst (last [(Value, 0 :: int)])) (int 0)
                                            (drop (Suc (0 + k)) three_items)))
       \<and> [(Value, 0)] \<notin> snd ` set L3)"
    by (rule remove_then_next_sibling [OF p i off3 atP3 first3 closed3 s3 w])
  show ?thesis
    by (intro conjI) (rule p e1 b1 e2 b2 e3 b3)+
qed
section \<open>The composer: properties\<close>

lemma foldl_onError:
  "foldl onError c rs =
     c\<lparr>errors := errors c @ reported False rs, warnings := warnings c @ reported True rs\<rparr>"
proof (induction rs arbitrary: c)
  case Nil
  show ?case by (simp add: reported_def)
next
  case (Cons r rs)
  obtain src code msg w where r: "r = (src, code, msg, w)" by (cases r)
  have "foldl onError c (r # rs) = foldl onError (onError c r) rs" by simp
  also have "\<dots> = (onError c r)\<lparr>errors := errors (onError c r) @ reported False rs,
                                  warnings := warnings (onError c r) @ reported True rs\<rparr>"
    by (rule Cons.IH)
  also have "\<dots> = c\<lparr>errors := errors c @ reported False (r # rs),
                        warnings := warnings c @ reported True (r # rs)\<rparr>"
    by (cases w) (simp_all add: r onError_def reported_def)
  finally show ?case .
qed

text \<open>C8: a \<^verbatim>\<open>doc-end\<close> token that arrives when no document is buffered adds exactly one
  \<^verbatim>\<open>UNEXPECTED_TOKEN\<close> error, "Unexpected doc-end without preceding document", at the
  end of the stream-level error list; \<^verbatim>\<open>next\<close> yields no document and nothing else in
  the composer changes.\<close>

theorem doc_end_without_document:
  assumes "doc c = None"
  shows "composer_next x c (DocEnd off src e) =
           ([], c\<lparr>errors := errors c @ [\<lparr>pos = (off, off + int (length src)),
                                          ecode = UNEXPECTED_TOKEN,
                                          message = ''Unexpected doc-end without preceding document''\<rparr>]\<rparr>)"
  using assms by (simp add: stray_doc_end_def)

theorem doc_end_without_document_witness:
  "doc (Composer sample_ext ()) = None
   \<and> composer_next sample_ext (Composer sample_ext ()) (DocEnd 0 ''...'' None) =
       ([], (Composer sample_ext ())
              \<lparr>errors := [\<lparr>pos = (0, 3), ecode = UNEXPECTED_TOKEN,
                           message = ''Unexpected doc-end without preceding document''\<rparr>]\<rparr>)"
  using doc_end_without_document [of "Composer sample_ext ()" sample_ext 0 "''...''" None]
  by (simp add: Composer_def)

lemma parsePrelude_Nil: "parsePrelude [] = ([], False)"
  by (simp add: parsePrelude_def)

lemma decorate_drained:
  assumes "prelude c = []" "errors c = []" "warnings c = []"
  shows "decorate c d a =
           (if a then d else d\<lparr>doc_errors := [], doc_warnings := []\<rparr>, c)"
  using assms by (simp add: decorate_def parsePrelude_Nil)

lemma decorate_drains:
  "prelude (snd (decorate c d a)) = [] \<and> errors (snd (decorate c d a)) = []
   \<and> warnings (snd (decorate c d a)) = []"
  by (simp add: decorate_def split: prod.splits)

text \<open>C7, as stated, fails when the flag is false: the first call moves the error list of
  the stream onto the document, and the second replaces it with the list that is now
  empty.\<close>

theorem decorate_twice_drops_errors:
  "doc_errors (fst (decorate error_before_document (new_Document () () (0, 0, 0)) False)) =
     [\<lparr>pos = (0, 1), ecode = UNEXPECTED_TOKEN, message = ''Unsupported token scalar''\<rparr>]
   \<and> doc_errors (fst (decorate
         (snd (decorate error_before_document (new_Document () () (0, 0, 0)) False))
         (fst (decorate error_before_document (new_Document () () (0, 0, 0)) False)) False)) = []"
  by (simp add: decorate_def parsePrelude_Nil error_before_document_def Composer_def
        new_Document_def)

text \<open>C7, amended: a second call of \<^verbatim>\<open>decorate\<close> with the same flag, right after the
  first, leaves the composer as it is and, when the flag \<^verbatim>\<open>afterDoc\<close> is true, the
  document as it is; when the flag is false the document's error and warning lists become
  empty and the rest of the document (the comments among it) stays as it is.\<close>

theorem decorate_twice:
  "decorate (snd (decorate c d a)) (fst (decorate c d a)) a =
     (if a then fst (decorate c d a)
      else (fst (decorate c d a))\<lparr>doc_errors := [], doc_warnings := []\<rparr>,
      snd (decorate c d a))"
  using decorate_drains [of c d a] by (simp add: decorate_drained)

theorem decorate_twice_witness:
  "decorate (snd (decorate error_before_document (new_Document () () (0, 0, 0)) True))
     (fst (decorate error_before_document (new_Document () () (0, 0, 0)) True)) True =
   ((new_Document () () (0, 0, 0))
      \<lparr>doc_errors := [\<lparr>pos = (0, 1), ecode = UNEXPECTED_TOKEN,
                        message = ''Unsupported token scalar''\<rparr>]\<rparr>,
    Composer sample_ext ())"
  using decorate_twice [of error_before_document "new_Document () () (0, 0, 0)" True]
  by (simp add: decorate_def parsePrelude_Nil error_before_document_def Composer_def
        new_Document_def)

lemma parsePrelude_comment:
  "parsePrelude [CHR ''#'' # text] = (if text = [] then '' '' else text, False)"
  by (simp add: parsePrelude_def)

text \<open>C6, as stated, fails: only the \<^verbatim>\<open>#\<close> is taken off the comment; the space
  after it stays.\<close>

theorem lone_comment_keeps_leading_space:
  "map commentBefore (fst (compose sample_ext (Composer sample_ext ()) [Comment 0 ''# note''] True 6))
     = [Some '' note'']
   \<and> map commentBefore (fst (compose sample_ext (Composer sample_ext ()) [Comment 0 ''# note''] True 6))
     \<noteq> [Some ''note'']"
  by (simp add: compose_def composer_end_def Composer_def decorate_def parsePrelude_def
        new_Document_def sample_ext_def)

text \<open>C6, amended: a lone comment token, then the end of the stream with \<^verbatim>\<open>forceDoc\<close>
  set, yields exactly one document: the shell for the stream's directives, with range
  \<open>(0, endOffset, endOffset)\<close> and, as the comment before its content, the text of the token
  after the \<^verbatim>\<open>#\<close> as it stands, or one space when nothing follows the \<^verbatim>\<open>#\<close>.\<close>

theorem lone_comment_forced_document:
  "compose x (Composer x opts) [Comment off (CHR ''#'' # text)] True endOffset =
     ([(new_Document (fst (at_document x (directives (Composer x opts)))) opts
          (0, endOffset, endOffset))
         \<lparr>commentBefore := Some (if text = [] then '' '' else text)\<rparr>],
      (Composer x opts)\<lparr>directives := snd (at_document x (directives (Composer x opts)))\<rparr>)"
  by (simp add: compose_def composer_end_def Composer_def decorate_def parsePrelude_comment
        new_Document_def split: prod.splits)

theorem lone_comment_forced_document_witness:
  "compose sample_ext (Composer sample_ext ()) [Comment 0 ''# note''] True 6 =
     ([(new_Document () () (0, 6, 6))\<lparr>commentBefore := Some '' note''\<rparr>], Composer sample_ext ())"
  using lone_comment_forced_document [of sample_ext "()" 0 "'' note''" 6]
  by (simp add: Composer_def sample_ext_def)

lemma decorate_False_fields:
  "doc_errors (fst (decorate c d False)) = errors c"
  "doc_warnings (fst (decorate c d False)) = warnings c"
  "doc_range (fst (decorate c d False)) = doc_range d"
  "doc_directives (fst (decorate c d False)) = doc_directives d"
  "snd (decorate c d a) = c\<lparr>prelude := [], errors := [], warnings := []\<rparr>"
  by (simp_all add: decorate_def split: prod.splits)

lemma composeDoc_range: "fst (doc_range (fst (composeDoc x opts dirs t))) = doffset t"
  by (simp add: composeDoc_def new_Document_def Let_def split: prod.splits)

lemma decorate_True_fields:
  "doc_errors (fst (decorate c d True)) = doc_errors d @ errors c"
  "doc_warnings (fst (decorate c d True)) = doc_warnings d @ warnings c"
  "doc_range (fst (decorate c d True)) = doc_range d"
  "doc_directives (fst (decorate c d True)) = doc_directives d"
  by (simp_all add: decorate_def split: prod.splits)

lemma composeDoc_errors: "doc_errors (fst (composeDoc x opts dirs t)) = []"
  by (simp add: composeDoc_def new_Document_def Let_def split: prod.splits)

lemma foldl_directive_reports:
  "foldl (\<lambda>c (o1, msg, w). onError c (AtPair (a + o1) b, BAD_DIRECTIVE, msg, w)) c0 calls
     = foldl onError c0 (map (\<lambda>(o1, msg, w). (AtPair (a + o1) b, BAD_DIRECTIVE, msg, w)) calls)"
  by (induction calls arbitrary: c0) (auto split: prod.splits)

lemma compose_tokens_Cons:
  "compose_tokens x c (t # ts) =
     (fst (composer_next x c t) @ fst (compose_tokens x (snd (composer_next x c t)) ts),
      snd (compose_tokens x (snd (composer_next x c t)) ts))"
  by (simp add: split_beta Let_def del: composer_next.simps)

lemma onError_missing_start:
  "onError c (missing_start t) = c\<lparr>errors := errors c @ [missing_start_error t]\<rparr>"
  by (simp add: onError_def missing_start_def missing_start_error_def)

lemma composer_next_DocumentToken:
  fixes c :: "('d, 'o) composer" and x t
  defines "r \<equiv> composeDoc x (options c) (directives c) t"
  defines "res \<equiv> composer_next x c (DocumentToken t)"
  shows "fst res = (case doc c of None \<Rightarrow> [] | Some old \<Rightarrow> [old])"
    and "\<exists>D. doc (snd res) = Some D \<and> doc_range D = doc_range (fst r)
           \<and> doc_directives D = doc_directives (fst r)
           \<and> doc_errors D = errors c @ reported False (fst (snd r))
               @ (if atDirectives c \<and> \<not> docStart (doc_directives (fst r))
                  then [missing_start_error t] else [])"
    and "options (snd res) = options c" and "\<not> atDirectives (snd res)"
    and "directives (snd res) = snd (snd r)" and "errors (snd res) = []"
  unfolding r_def res_def
  by (simp_all add: split_beta Let_def foldl_onError onError_missing_start decorate_False_fields)

text \<open>C5, as stated, fails: after a directive and two documents without start markers,
  the missing-indicator error is on the first document; none is reported for the second,
  neither on it nor on the stream.\<close>

theorem second_document_without_start_no_error:
  "map doc_range (fst (compose sample_ext (Composer sample_ext ()) plain_documents False (- 1)))
     = [(10, 11, 11), (12, 13, 13)]
   \<and> map doc_directives
         (fst (compose sample_ext (Composer sample_ext ()) plain_documents False (- 1)))
     = [\<lparr>docStart = False, docEnd = False, dstate = ()\<rparr>,
        \<lparr>docStart = False, docEnd = False, dstate = ()\<rparr>]
   \<and> map doc_errors (fst (compose sample_ext (Composer sample_ext ()) plain_documents False (- 1)))
     = [[\<lparr>pos = (10, 11), ecode = MISSING_CHAR,
          message = ''Missing directives-end/doc-start indicator line''\<rparr>], []]
   \<and> errors (snd (compose sample_ext (Composer sample_ext ()) plain_documents False (- 1))) = []"
  by (simp add: plain_documents_def compose_def Composer_def sample_ext_def composeDoc_def
        new_Document_def next_token_def is_block_collection_def decorate_def parsePrelude_def
        composer_end_def onError_def missing_start_def Let_def)

text \<open>C5, amended: the stream of a directive and two documents yields exactly two
  documents, in the order of their tokens. The "Missing directives-end/doc-start indicator
  line" error is reported for the first document, the one that follows the directive, when
  it has no explicit start: its errors are those of the directive, those reported while it
  was assembled, and that one. For the second document the composer adds nothing, with or
  without a start marker: its errors are those reported while it was assembled.\<close>

theorem directive_then_two_documents:
  "let c0 = Composer x opts;
       a = directives_add x (directives c0) src;
       r1 = composeDoc x opts (fst a) t1;
       r2 = composeDoc x opts (snd (snd r1)) t2;
       out = fst (compose x c0 [Directive off src, DocumentToken t1, DocumentToken t2]
                    forceDoc endOffset)
   in length out = 2
      \<and> fst (doc_range (out ! 0)) = doffset t1 \<and> fst (doc_range (out ! 1)) = doffset t2
      \<and> doc_range (out ! 0) = doc_range (fst r1) \<and> doc_range (out ! 1) = doc_range (fst r2)
      \<and> doc_directives (out ! 0) = doc_directives (fst r1)
      \<and> doc_directives (out ! 1) = doc_directives (fst r2)
      \<and> doc_errors (out ! 0) =
            reported False (directive_reports off src (snd a)) @ reported False (fst (snd r1))
            @ (if docStart (doc_directives (fst r1)) then [] else [missing_start_error t1])
      \<and> doc_errors (out ! 1) = reported False (fst (snd r2))"
proof -
  define c0 where "c0 = Composer x opts"
  define a where "a = directives_add x (directives c0) src"
  define r1 where "r1 = composeDoc x opts (fst a) t1"
  define r2 where "r2 = composeDoc x opts (snd (snd r1)) t2"
  define s1 where "s1 = snd (composer_next x c0 (Directive off src))"
  define s2 where "s2 = snd (composer_next x s1 (DocumentToken t1))"
  define s3 where "s3 = snd (composer_next x s2 (DocumentToken t2))"
  have c0: "doc c0 = None" "options c0 = opts" "errors c0 = []" "atDirectives c0 = False"
    by (simp_all add: c0_def Composer_def)
  have y1: "fst (composer_next x c0 (Directive off src)) = []"
    by (simp add: split_beta Let_def)
  have s1: "doc s1 = None" "options s1 = opts" "atDirectives s1" "directives s1 = fst a"
    "errors s1 = reported False (directive_reports off src (snd a))"
    by (simp_all add: s1_def split_beta Let_def c0 a_def foldl_directive_reports foldl_onError
          directive_reports_def)
  have y2: "fst (composer_next x s1 (DocumentToken t1)) = []"
    using composer_next_DocumentToken(1) [of x s1 t1] by (simp add: s1(1))
  obtain D1 where D1: "doc s2 = Some D1"
    and D1r: "doc_range D1 = doc_range (fst r1)"
    and D1d: "doc_directives D1 = doc_directives (fst r1)"
    and D1e: "doc_errors D1 =
        reported False (directive_reports off src (snd a)) @ reported False (fst (snd r1))
        @ (if docStart (doc_directives (fst r1)) then [] else [missing_start_error t1])"
    using composer_next_DocumentToken(2) [of x s1 t1] s1(3)
    unfolding s2_def [symmetric] s1(1,2,4,5) r1_def [symmetric] by auto
  have s2: "options s2 = opts" "\<not> atDirectives s2" "directives s2 = snd (snd r1)"
    "errors s2 = []"
    using composer_next_DocumentToken(3-6) [of x s1 t1]
    unfolding s2_def [symmetric] s1(1,2,4,5) r1_def [symmetric] by auto
  have y3: "fst (composer_next x s2 (DocumentToken t2)) = [D1]"
    using composer_next_DocumentToken(1) [of x s2 t2] by (simp add: D1)
  obtain D2 where D2: "doc s3 = Some D2"
    and D2r: "doc_range D2 = doc_range (fst r2)"
    and D2d: "doc_directives D2 = doc_directives (fst r2)"
    and D2e: "doc_errors D2 = reported False (fst (snd r2))"
    using composer_next_DocumentToken(2) [of x s2 t2] s2(2)
    unfolding s3_def [symmetric] s2(1,3,4) r2_def [symmetric] by auto
  have s3: "errors s3 = []"
    using composer_next_DocumentToken(6) [of x s2 t2] by (simp add: s3_def)
  have y4: "fst (composer_end x s3 forceDoc endOffset) = [fst (decorate s3 D2 True)]"
    by (simp add: composer_end_def D2 split_beta)
  have out: "fst (compose x c0 [Directive off src, DocumentToken t1, DocumentToken t2]
                    forceDoc endOffset) = [D1, fst (decorate s3 D2 True)]"
    by (simp only: compose_def compose_tokens_Cons compose_tokens.simps(1) Let_def split_beta
          fst_conv snd_conv s1_def [symmetric] s2_def [symmetric] s3_def [symmetric]
          y1 y2 y3 y4 append_Nil append_Nil2 append_Cons)
  have "fst (doc_range (fst r1)) = doffset t1" "fst (doc_range (fst r2)) = doffset t2"
    by (simp_all add: r1_def r2_def composeDoc_range)
  then show ?thesis
    unfolding Let_def c0_def [symmetric] a_def [symmetric] r1_def [symmetric] r2_def [symmetric] out
    by (simp add: D1r D1d D1e D2r D2d D2e decorate_True_fields s3)
qed

theorem directive_then_two_documents_witness:
  "map doc_errors (fst (compose sample_ext (Composer sample_ext ()) plain_documents False (- 1)))
     = [[missing_start_error (Document 10 [] (Some (Tok ''scalar'' ''a'')) None)], []]"
proof -
  let ?out = "fst (compose sample_ext (Composer sample_ext ())
        [Directive 0 ''%YAML 1.2'',
         DocumentToken (Document 10 [] (Some (Tok ''scalar'' ''a'')) None),
         DocumentToken (Document 12 [] (Some (Tok ''scalar'' ''b'')) None)] False (- 1))"
  have a: "length ?out = 2
      \<and> doc_errors (?out ! 0) = [missing_start_error (Document 10 [] (Some (Tok ''scalar'' ''a'')) None)]
      \<and> doc_errors (?out ! 1) = []"
    using directive_then_two_documents
      [of sample_ext "()" "''%YAML 1.2''" "Document 10 [] (Some (Tok ''scalar'' ''a'')) None"
          "Document 12 [] (Some (Tok ''scalar'' ''b'')) None" 0 False "- 1"]
    by (simp add: Let_def sample_ext_def composeDoc_def new_Document_def Composer_def
          reported_def directive_reports_def)
  then obtain d1 d2 where "?out = [d1, d2]"
    by (cases ?out; cases "tl ?out") auto
  then show ?thesis using a by (simp add: plain_documents_def)
qed

text \<open>C9: when \<^verbatim>\<open>resolveProps\<close> finds a directives-end marker in the leading tokens,
  the document that \<^verbatim>\<open>composeDoc\<close> returns has \<^verbatim>\<open>docStart\<close> set; if moreover the
  value is a block map or a block sequence and no newline was seen, \<^verbatim>\<open>onError\<close> is called
  at \<^verbatim>\<open>props.end\<close> with \<^verbatim>\<open>MISSING_CHAR\<close> as an error, not a warning; and a document
  with contents and with the offset of the token is returned all the same.\<close>

theorem composeDoc_explicit_start:
  assumes "found (fst (resolveProps x (dstart t) (next_token (dvalue t) (dend t)) (doffset t)))"
  shows "docStart (doc_directives (fst (composeDoc x opts dirs t)))
         \<and> (is_block_collection (dvalue t)
              \<and> \<not> hasNewline (fst (resolveProps x (dstart t) (next_token (dvalue t) (dend t))
                                      (doffset t)))
            \<longrightarrow> (AtOffset (pend (fst (resolveProps x (dstart t) (next_token (dvalue t) (dend t))
                                         (doffset t)))),
                 MISSING_CHAR,
                 ''Block collection cannot start on same line with directives-end marker'',
                 False) \<in> set (fst (snd (composeDoc x opts dirs t))))
         \<and> contents (fst (composeDoc x opts dirs t)) \<noteq> None
         \<and> fst (doc_range (fst (composeDoc x opts dirs t))) = doffset t"
  using assms
  by (simp add: composeDoc_def Let_def split_beta new_Document_def block_on_marker_line_def)

theorem composeDoc_explicit_start_witness:
  "found (fst (resolveProps sample_ext [SourceToken ''doc-start'' 0 0 ''---'', SourceToken ''space'' 3 0 '' '']
           (next_token (Some (Coll ''block-map'' [])) None) 0))
   \<and> docStart (doc_directives (fst (composeDoc sample_ext () ()
        (Document 0 [SourceToken ''doc-start'' 0 0 ''---'', SourceToken ''space'' 3 0 '' '']
           (Some (Coll ''block-map'' [])) None))))
   \<and> (AtOffset 4, MISSING_CHAR,
        ''Block collection cannot start on same line with directives-end marker'', False)
      \<in> set (fst (snd (composeDoc sample_ext () ()
        (Document 0 [SourceToken ''doc-start'' 0 0 ''---'', SourceToken ''space'' 3 0 '' '']
           (Some (Coll ''block-map'' [])) None))))"
  using composeDoc_explicit_start
    [of sample_ext "Document 0 [SourceToken ''doc-start'' 0 0 ''---'', SourceToken ''space'' 3 0 '' '']
           (Some (Coll ''block-map'' [])) None" "()" "()"]
  by (simp add: sample_ext_def is_block_collection_def)

end
